theory Spec2Isabelle
  imports Main "HOL-Library.Multiset" "HOL-Library.Word"
begin

section \<open>Go primitives used by the model\<close>

text \<open>
  \<open>time.Duration\<close> is a signed 64-bit count of nanoseconds.  Durations are modelled as
  \<open>int\<close>, and every arithmetic step the source performs on them is wrapped by
  \<open>wrap64\<close>, the two's complement wrap-around of Go's \<open>int64\<close> (and of \<open>int\<close> on the
  64-bit platforms the program targets).

  A \<open>time.Time\<close> is modelled as the number of nanoseconds since the zero time, so that
  \<open>t.IsZero()\<close> is \<open>t = 0\<close>.  Every call of \<open>time.Now()\<close> in the source becomes an
  explicit argument of the model.
\<close>

type_synonym Duration = int
type_synonym Time = int

definition wrap64 :: "int \<Rightarrow> int" where
  "wrap64 x = (x + 2 ^ 63) mod 2 ^ 64 - 2 ^ 63"

definition maxDuration :: Duration where
  "maxDuration = 2 ^ 63 - 1"

definition minDuration :: Duration where
  "minDuration = - (2 ^ 63)"

definition Millisecond :: Duration where
  "Millisecond = 1000000"

definition Second :: Duration where
  "Second = 1000000000"

definition Minute :: Duration where
  "Minute = 60000000000"

definition IsZero :: "Time \<Rightarrow> bool" where
  "IsZero t = (t = 0)"

text \<open>\<open>t.Sub(u)\<close>: the difference, saturated to the range of a Duration.\<close>

definition Sub :: "Time \<Rightarrow> Time \<Rightarrow> Duration" where
  "Sub t u = (if t - u > maxDuration then maxDuration
              else if t - u < minDuration then minDuration
              else t - u)"

text \<open>Go's integer division and remainder truncate towards zero.\<close>

definition tdiv :: "int \<Rightarrow> int \<Rightarrow> int" where
  "tdiv a b = sgn a * sgn b * (\<bar>a\<bar> div \<bar>b\<bar>)"

definition tmod :: "int \<Rightarrow> int \<Rightarrow> int" where
  "tmod a b = a - b * tdiv a b"

text \<open>The verb \<open>%d\<close> of \<open>fmt.Sprintf\<close>.\<close>

definition digit :: "nat \<Rightarrow> char" where
  "digit n = ''0123456789'' ! n"

function showNat :: "nat \<Rightarrow> string" where
  "showNat n = (if n < 10 then [digit n] else showNat (n div 10) @ [digit (n mod 10)])"
  by pat_completeness auto
termination
  by (relation "measure id") auto

declare showNat.simps [simp del]

definition showInt :: "int \<Rightarrow> string" where
  "showInt i = (if i < 0 then CHR ''-'' # showNat (nat (- i)) else showNat (nat i))"

section \<open>Domain model (package domain)\<close>

datatype SessionStatus = SessionActive | SessionPaused | SessionCompleted | SessionAbandoned

datatype StepStatus = StepPending | StepActive | StepDone | StepSkipped

datatype TimerStatus = TimerPending | TimerRunning | TimerPaused | TimerFired | TimerDismissed

datatype ConditionType = ConditionManual | ConditionTime | ConditionVisual | ConditionTemperature

text \<open>
  \<open>float64\<close> values (ingredient quantities) are carried along by the modelled
  operations but never computed with: they are kept as their 64-bit IEEE 754 patterns.
\<close>

type_synonym float64 = "64 word"

record Ingredient =
  i_Name :: string
  i_Quantity :: float64
  i_Unit :: string
  i_SizeDescriptor :: string
  i_Optional :: bool

record StepCondition =
  sc_Type :: ConditionType
  sc_Description :: string

record TimerConfig =
  tc_Duration :: Duration
  tc_Label :: string

text \<open>The pointer field \<open>TimerConfig *TimerConfig\<close> is an option: \<open>nil\<close> is \<open>None\<close>.\<close>

record Step =
  st_ID :: string
  st_Order :: int
  st_Instruction :: string
  st_Duration :: Duration
  st_Conditions :: "StepCondition list"
  st_ParallelHints :: "string list"
  st_TimerConfig :: "TimerConfig option"

record Recipe =
  r_ID :: string
  r_Name :: string
  r_Description :: string
  r_Servings :: int
  r_Ingredients :: "Ingredient list"
  r_Steps :: "Step list"
  r_Tags :: "string list"
  r_Version :: int

record StepState =
  ss_Status :: StepStatus
  ss_StartedAt :: Time
  ss_CompletedAt :: Time

record TimerState =
  ts_ID :: string
  ts_StepID :: string
  ts_Label :: string
  ts_Duration :: Duration
  ts_Remaining :: Duration
  ts_Status :: TimerStatus
  ts_LastNotified :: Time
  ts_LastRemindedAt :: Time
  ts_WarnedAlmost :: bool
  ts_EscalationLevel :: int

text \<open>
  \<open>CurrentStepIndex\<close> starts at 0 and is only ever incremented, so it is a \<open>nat\<close>, and
  so are the keys of \<open>StepStates\<close>.  Both maps hold pointers in the source; a missing key
  yields \<open>nil\<close>, here \<open>None\<close>.
\<close>

record Session =
  s_ID :: string
  s_RecipeID :: string
  s_RecipeName :: string
  s_Servings :: int
  s_CurrentStepIndex :: nat
  s_StepStates :: "nat \<rightharpoonup> StepState"
  s_TimerStates :: "string \<rightharpoonup> TimerState"
  s_Status :: SessionStatus
  s_StartedAt :: Time
  s_UpdatedAt :: Time

subsection \<open>Errors (domain/errors.go, and the errors built with fmt.Errorf)\<close>

datatype sentinel =
    ErrNotFound
  | ErrSessionNotActive
  | ErrSessionPaused
  | ErrNoMoreSteps
  | ErrAlreadyExists
  | ErrNotImplemented

text \<open>The message given to \<open>errors.New\<close> for each sentinel.\<close>

fun sentinel_message :: "sentinel \<Rightarrow> string" where
  "sentinel_message ErrNotFound = ''not found''"
| "sentinel_message ErrSessionNotActive = ''session is not active''"
| "sentinel_message ErrSessionPaused = ''session is paused''"
| "sentinel_message ErrNoMoreSteps = ''no more steps in recipe''"
| "sentinel_message ErrAlreadyExists = ''already exists''"
| "sentinel_message ErrNotImplemented = ''not implemented''"

text \<open>
  \<open>Wrapped p e\<close> is \<open>fmt.Errorf(p + ": %w", e)\<close>.  The remaining constructors are the
  formatted errors of the engine and of the recipe-mutation applier, and the two run-time
  panics the modelled code can raise.
\<close>

datatype error =
    Sentinel sentinel
  | Wrapped string error
  | TimerNotFound string
  | TimerCannotDismiss string TimerStatus
  | StepOutOfRange int nat
  | PanicNilDereference
  | PanicIndexOutOfRange

fun is_panic :: "error \<Rightarrow> bool" where
  "is_panic PanicNilDereference = True"
| "is_panic PanicIndexOutOfRange = True"
| "is_panic _ = False"

section \<open>Engine (package engine)\<close>

text \<open>
  The engine holds a recipe source and a session store.  Both are the in-memory
  implementations of the repository: maps from id to object, whose \<open>Get\<close> and \<open>Load\<close> fail
  with \<open>ErrNotFound\<close> on a missing key and whose \<open>Save\<close> never fails.
\<close>

record Engine =
  recipes :: "string \<rightharpoonup> Recipe"
  store :: "string \<rightharpoonup> Session"
  defaultServings :: int

text \<open>
  \<open>MemoryStore.Load\<close> hands out the stored pointer and the engine mutates the session
  through it, then \<open>Save\<close> files the same object under \<open>session.ID\<close>.  After a successful
  operation the updated session is therefore found under the id it was loaded with and
  under its own \<open>ID\<close>.
\<close>

definition Save :: "Engine \<Rightarrow> string \<Rightarrow> Session \<Rightarrow> Engine" where
  "Save e sessionID session =
     e\<lparr>store := (store e)(sessionID \<mapsto> session, s_ID session \<mapsto> session)\<rparr>"

definition timerID :: "Step \<Rightarrow> string" where
  "timerID step = ''timer-'' @ st_ID step"

definition maybeStartTimer :: "Session \<Rightarrow> Step \<Rightarrow> Session" where
  "maybeStartTimer session step =
     (case st_TimerConfig step of
        None \<Rightarrow> session
      | Some cfg \<Rightarrow>
          session\<lparr>s_TimerStates := (s_TimerStates session)(timerID step \<mapsto>
            \<lparr>ts_ID = timerID step,
             ts_StepID = st_ID step,
             ts_Label = tc_Label cfg,
             ts_Duration = tc_Duration cfg,
             ts_Remaining = tc_Duration cfg,
             ts_Status = TimerPending,
             ts_LastNotified = 0,
             ts_LastRemindedAt = 0,
             ts_WarnedAlmost = False,
             ts_EscalationLevel = 0\<rparr>)\<rparr>)"

text \<open>
  \<open>StartSession\<close>.  The arguments \<open>newID\<close>, \<open>t1\<close>, \<open>t2\<close>, \<open>t3\<close> are the results of
  \<open>generateID()\<close> and of the three calls of \<open>time.Now()\<close>, in program order.  With an
  empty step list, \<open>session.StepStates[0]\<close> is \<open>nil\<close> and the write through it panics
  before \<open>recipe.Steps[0]\<close> is reached.
\<close>

definition initStepStates :: "Recipe \<Rightarrow> (nat \<rightharpoonup> StepState)" where
  "initStepStates recipe =
     (\<lambda>i. if i < length (r_Steps recipe)
          then Some \<lparr>ss_Status = StepPending, ss_StartedAt = 0, ss_CompletedAt = 0\<rparr>
          else None)"

definition StartSession ::
  "Engine \<Rightarrow> string \<Rightarrow> int \<Rightarrow> string \<Rightarrow> Time \<Rightarrow> Time \<Rightarrow> Time \<Rightarrow> (error + Session) \<times> Engine" where
  "StartSession e recipeID servings newID t1 t2 t3 =
     (case recipes e recipeID of
        None \<Rightarrow> (Inl (Wrapped ''getting recipe'' (Sentinel ErrNotFound)), e)
      | Some recipe \<Rightarrow>
          let servings' = (if servings \<le> 0 then defaultServings e else servings);
              session = \<lparr>s_ID = newID,
                         s_RecipeID = r_ID recipe,
                         s_RecipeName = r_Name recipe,
                         s_Servings = servings',
                         s_CurrentStepIndex = 0,
                         s_StepStates = initStepStates recipe,
                         s_TimerStates = Map.empty,
                         s_Status = SessionActive,
                         s_StartedAt = t1,
                         s_UpdatedAt = t2\<rparr>
          in (case s_StepStates session 0 of
                None \<Rightarrow> (Inl PanicNilDereference, e)
              | Some first \<Rightarrow>
                  let session1 = session\<lparr>s_StepStates := (s_StepStates session)(0 \<mapsto>
                                   first\<lparr>ss_Status := StepActive, ss_StartedAt := t3\<rparr>)\<rparr>
                  in (case r_Steps recipe of
                        [] \<Rightarrow> (Inl PanicIndexOutOfRange, e)
                      | step0 # _ \<Rightarrow>
                          let session2 = maybeStartTimer session1 step0
                          in (Inr session2, Save e newID session2))))"

text \<open>
  \<open>Advance\<close> and \<open>Skip\<close> differ only in the status given to the step that is left.
  A missing entry of \<open>StepStates\<close> is a nil pointer, and writing through it panics.
\<close>

definition leaveStep ::
  "StepStatus \<Rightarrow> Engine \<Rightarrow> Time \<Rightarrow> string \<Rightarrow> (error + Step) \<times> Engine" where
  "leaveStep final e now sessionID =
     (case store e sessionID of
        None \<Rightarrow> (Inl (Wrapped ''loading session'' (Sentinel ErrNotFound)), e)
      | Some session \<Rightarrow>
          if s_Status session \<noteq> SessionActive then (Inl (Sentinel ErrSessionNotActive), e)
          else (case recipes e (s_RecipeID session) of
             None \<Rightarrow> (Inl (Wrapped ''getting recipe'' (Sentinel ErrNotFound)), e)
           | Some recipe \<Rightarrow>
              (case s_StepStates session (s_CurrentStepIndex session) of
                 None \<Rightarrow> (Inl PanicNilDereference, e)
               | Some current \<Rightarrow>
                  let session1 = session\<lparr>s_StepStates :=
                        (s_StepStates session)(s_CurrentStepIndex session \<mapsto>
                           current\<lparr>ss_Status := final, ss_CompletedAt := now\<rparr>)\<rparr>;
                      nextIdx = s_CurrentStepIndex session + 1
                  in if nextIdx \<ge> length (r_Steps recipe) then
                       (Inl (Sentinel ErrNoMoreSteps),
                        Save e sessionID
                          (session1\<lparr>s_Status := SessionCompleted, s_UpdatedAt := now\<rparr>))
                     else
                       (case s_StepStates session1 nextIdx of
                          None \<Rightarrow> (Inl PanicNilDereference, e)
                        | Some nxt \<Rightarrow>
                           let session2 = session1\<lparr>s_CurrentStepIndex := nextIdx,
                                 s_StepStates := (s_StepStates session1)(nextIdx \<mapsto>
                                    nxt\<lparr>ss_Status := StepActive, ss_StartedAt := now\<rparr>),
                                 s_UpdatedAt := now\<rparr>;
                               step = r_Steps recipe ! nextIdx
                           in (Inr step, Save e sessionID (maybeStartTimer session2 step))))))"

definition Advance :: "Engine \<Rightarrow> Time \<Rightarrow> string \<Rightarrow> (error + Step) \<times> Engine" where
  "Advance = leaveStep StepDone"

definition Skip :: "Engine \<Rightarrow> Time \<Rightarrow> string \<Rightarrow> (error + Step) \<times> Engine" where
  "Skip = leaveStep StepSkipped"

text \<open>The loops of \<open>Pause\<close> and \<open>Resume\<close> visit every timer once and touch only it.\<close>

definition pauseTimer :: "TimerState \<Rightarrow> TimerState" where
  "pauseTimer ts = (if ts_Status ts = TimerRunning then ts\<lparr>ts_Status := TimerPaused\<rparr> else ts)"

definition resumeTimer :: "TimerState \<Rightarrow> TimerState" where
  "resumeTimer ts = (if ts_Status ts = TimerPaused then ts\<lparr>ts_Status := TimerRunning\<rparr> else ts)"

definition Pause :: "Engine \<Rightarrow> Time \<Rightarrow> string \<Rightarrow> error option \<times> Engine" where
  "Pause e now sessionID =
     (case store e sessionID of
        None \<Rightarrow> (Some (Wrapped ''loading session'' (Sentinel ErrNotFound)), e)
      | Some session \<Rightarrow>
          if s_Status session \<noteq> SessionActive then (Some (Sentinel ErrSessionNotActive), e)
          else (None, Save e sessionID
                 (session\<lparr>s_Status := SessionPaused, s_UpdatedAt := now,
                    s_TimerStates := map_option pauseTimer \<circ> s_TimerStates session\<rparr>)))"

definition Resume :: "Engine \<Rightarrow> Time \<Rightarrow> string \<Rightarrow> (error + Session) \<times> Engine" where
  "Resume e now sessionID =
     (case store e sessionID of
        None \<Rightarrow> (Inl (Wrapped ''loading session'' (Sentinel ErrNotFound)), e)
      | Some session \<Rightarrow>
          if s_Status session \<noteq> SessionPaused then (Inl (Sentinel ErrSessionPaused), e)
          else let session' = session\<lparr>s_Status := SessionActive, s_UpdatedAt := now,
                     s_TimerStates := map_option resumeTimer \<circ> s_TimerStates session\<rparr>
               in (Inr session', Save e sessionID session'))"

definition Abandon :: "Engine \<Rightarrow> Time \<Rightarrow> string \<Rightarrow> error option \<times> Engine" where
  "Abandon e now sessionID =
     (case store e sessionID of
        None \<Rightarrow> (Some (Wrapped ''loading session'' (Sentinel ErrNotFound)), e)
      | Some session \<Rightarrow>
          (None, Save e sessionID (session\<lparr>s_Status := SessionAbandoned, s_UpdatedAt := now\<rparr>)))"

definition startTimer :: "TimerState \<Rightarrow> TimerState" where
  "startTimer ts = (if ts_Status ts = TimerPending then ts\<lparr>ts_Status := TimerRunning\<rparr> else ts)"

text \<open>
  \<open>StartPendingTimers\<close> counts the pending timers it starts.  The count is taken over
  \<open>keys\<close>, the keys of \<open>TimerStates\<close> in the order the \<open>range\<close> loop visits them.
\<close>

definition StartPendingTimers ::
  "Engine \<Rightarrow> Time \<Rightarrow> string list \<Rightarrow> string \<Rightarrow> (error + nat) \<times> Engine" where
  "StartPendingTimers e now keys sessionID =
     (case store e sessionID of
        None \<Rightarrow> (Inl (Wrapped ''loading session'' (Sentinel ErrNotFound)), e)
      | Some session \<Rightarrow>
          let started = length (filter (\<lambda>k. case s_TimerStates session k of
                                   None \<Rightarrow> False | Some ts \<Rightarrow> ts_Status ts = TimerPending) keys)
          in if started > 0
             then (Inr started, Save e sessionID
                     (session\<lparr>s_TimerStates := map_option startTimer \<circ> s_TimerStates session,
                        s_UpdatedAt := now\<rparr>))
             else (Inr started, e))"

definition DismissTimer :: "Engine \<Rightarrow> Time \<Rightarrow> string \<Rightarrow> string \<Rightarrow> error option \<times> Engine" where
  "DismissTimer e now sessionID tid =
     (case store e sessionID of
        None \<Rightarrow> (Some (Wrapped ''loading session'' (Sentinel ErrNotFound)), e)
      | Some session \<Rightarrow>
          (case s_TimerStates session tid of
             None \<Rightarrow> (Some (TimerNotFound tid), e)
           | Some ts \<Rightarrow>
               if ts_Status ts \<noteq> TimerRunning \<and> ts_Status ts \<noteq> TimerFired
               then (Some (TimerCannotDismiss tid (ts_Status ts)), e)
               else (None, Save e sessionID
                      (session\<lparr>s_TimerStates := (s_TimerStates session)(tid \<mapsto>
                                  ts\<lparr>ts_Status := TimerDismissed\<rparr>),
                               s_UpdatedAt := now\<rparr>))))"

section \<open>Timer supervisor (package timer)\<close>

record Supervisor =
  tickInterval :: Duration
  notifyCooldown :: Duration
  maxEscalation :: int
  reminderInterval :: Duration
  almostDoneThreshold :: Duration

text \<open>The settings installed by \<open>timer.New\<close> when no option overrides them.\<close>

definition defaultSupervisor :: Supervisor where
  "defaultSupervisor =
     \<lparr>tickInterval = 1 * Second,
      notifyCooldown = 15 * Second,
      maxEscalation = 3,
      reminderInterval = 2 * Minute,
      almostDoneThreshold = 30 * Second\<rparr>"

text \<open>
  \<open>escalationMessage\<close>.  The level-1 template is written with two ASCII hyphens in the
  source.
\<close>

definition escalationMessage :: "TimerState \<Rightarrow> string" where
  "escalationMessage ts =
     (if ts_EscalationLevel ts = 0 then ''[Timer] '' @ ts_Label ts @ '' is up.''
      else if ts_EscalationLevel ts = 1 then ''[Timer] '' @ ts_Label ts @ '' -- check it now.''
      else if ts_EscalationLevel ts = 2 then ''[Timer] '' @ ts_Label ts @ ''. Now.''
      else ''[Timer] '' @ ts_Label ts @ ''.'')"

text \<open>The UTF-8 encoding of the em dash U+2014, as it appears in Go string literals.\<close>

definition emDash :: string where
  "emDash = [char_of (226 :: nat), char_of (128 :: nat), char_of (148 :: nat)]"

text \<open>
  \<open>formatRemaining\<close>.  \<open>Round\<close> is \<open>Duration.Round\<close> of the Go library (halfway values
  round away from zero, overflow saturates).  The rounded value is a whole number of
  seconds or one of the two saturation bounds, and on those \<open>int(d.Seconds())\<close> is the
  truncating division by one second.
\<close>

definition Round :: "Duration \<Rightarrow> Duration \<Rightarrow> Duration" where
  "Round d m =
     (if m \<le> 0 then d
      else let r = tmod d m in
        if d < 0 then
          (let r' = - r in
           if r' + r' < m then wrap64 (d + r')
           else let d1 = wrap64 (d - m + r') in if d1 < d then d1 else minDuration)
        else if r + r < m then wrap64 (d - r)
        else let d1 = wrap64 (d + m - r) in if d1 > d then d1 else maxDuration)"

definition formatRemaining :: "Duration \<Rightarrow> string" where
  "formatRemaining d =
     (let totalSec = tdiv (Round d Second) Second in
      if totalSec < 60 then
        (if totalSec = 1 then ''1 second'' else showInt totalSec @ '' seconds'')
      else
        let m0 = tdiv (totalSec + 30) 60;
            m = (if m0 \<le> 0 then 1 else m0)
        in if m = 1 then ''1 minute'' else showInt m @ '' minutes'')"

datatype notification = Notify string | NotifyUrgent string

definition almostDoneMessage :: "TimerState \<Rightarrow> string" where
  "almostDoneMessage ts =
     ''[Timer] '' @ ts_Label ts @ '' '' @ emDash @ '' almost done, ''
       @ formatRemaining (ts_Remaining ts) @ '' left.''"

definition reminderMessage :: "TimerState \<Rightarrow> string" where
  "reminderMessage ts =
     ''[Timer] '' @ ts_Label ts @ '' '' @ emDash @ '' ''
       @ formatRemaining (ts_Remaining ts) @ '' remaining.''"

text \<open>
  The body of the first loop of \<open>processSession\<close> for one timer: the new timer state, the
  notifications sent, and whether \<open>changed\<close> was set.
\<close>

definition countDown ::
  "Supervisor \<Rightarrow> Time \<Rightarrow> TimerState \<Rightarrow> TimerState \<times> notification list \<times> bool" where
  "countDown s now ts0 =
     (if ts_Status ts0 \<noteq> TimerRunning then (ts0, [], False)
      else
        let ts = ts0\<lparr>ts_Remaining := wrap64 (ts_Remaining ts0 - tickInterval s)\<rparr> in
        if ts_Remaining ts \<le> 0 then
          (let ts1 = ts\<lparr>ts_Remaining := 0, ts_Status := TimerFired\<rparr>
           in (ts1\<lparr>ts_LastNotified := now, ts_EscalationLevel := 1\<rparr>,
               [NotifyUrgent (escalationMessage ts1)], True))
        else if \<not> ts_WarnedAlmost ts \<and> ts_Remaining ts \<le> almostDoneThreshold s
                \<and> ts_Duration ts > wrap64 (almostDoneThreshold s * 2) then
          (let ts1 = ts\<lparr>ts_WarnedAlmost := True\<rparr>
           in (ts1\<lparr>ts_LastRemindedAt := now\<rparr>, [Notify (almostDoneMessage ts1)], True))
        else if reminderInterval s > 0 \<and> ts_Duration ts > reminderInterval s then
          (if IsZero (ts_LastRemindedAt ts) then
             (if wrap64 (ts_Duration ts - ts_Remaining ts) \<ge> reminderInterval s
              then (ts\<lparr>ts_LastRemindedAt := now\<rparr>, [Notify (reminderMessage ts)], True)
              else (ts, [], True))
           else if Sub now (ts_LastRemindedAt ts) \<ge> reminderInterval s
              then (ts\<lparr>ts_LastRemindedAt := now\<rparr>, [Notify (reminderMessage ts)], True)
              else (ts, [], True))
        else (ts, [], True))"

text \<open>The body of the second loop: follow-up on a fired timer.\<close>

definition followUp ::
  "Supervisor \<Rightarrow> Time \<Rightarrow> TimerState \<Rightarrow> TimerState \<times> notification list \<times> bool" where
  "followUp s now ts =
     (if ts_Status ts \<noteq> TimerFired then (ts, [], False)
      else if ts_EscalationLevel ts > maxEscalation s then (ts, [], False)
      else if \<not> IsZero (ts_LastNotified ts) \<and> Sub now (ts_LastNotified ts) < notifyCooldown s
        then (ts, [], False)
      else (ts\<lparr>ts_LastNotified := now,
                ts_EscalationLevel := wrap64 (ts_EscalationLevel ts + 1)\<rparr>,
            [Notify (escalationMessage ts)], True))"

text \<open>
  A \<open>range\<close> loop over \<open>session.TimerStates\<close> visits the keys in an order chosen by the
  Go run time; the order is the argument \<open>keys\<close>.  Each notification is recorded with the
  key of the timer whose iteration sent it.
\<close>

fun rangeTimers ::
  "(TimerState \<Rightarrow> TimerState \<times> notification list \<times> bool) \<Rightarrow> string list \<Rightarrow>
   (string \<rightharpoonup> TimerState) \<times> (string \<times> notification) list \<times> bool \<Rightarrow>
   (string \<rightharpoonup> TimerState) \<times> (string \<times> notification) list \<times> bool" where
  "rangeTimers body [] acc = acc"
| "rangeTimers body (k # ks) (m, out, changed) =
     (case m k of
        None \<Rightarrow> rangeTimers body ks (m, out, changed)
      | Some ts \<Rightarrow>
          (case body ts of (ts', ns, c) \<Rightarrow>
             rangeTimers body ks (m(k \<mapsto> ts'), out @ map (Pair k) ns, changed \<or> c)))"

definition processSession ::
  "Supervisor \<Rightarrow> Time \<Rightarrow> string list \<Rightarrow> string list \<Rightarrow> Session \<Rightarrow>
   Session \<times> (string \<times> notification) list \<times> bool" where
  "processSession s now keys1 keys2 session =
     (if s_Status session \<noteq> SessionActive then (session, [], False)
      else
        (case rangeTimers (followUp s now) keys2
                (rangeTimers (countDown s now) keys1 (s_TimerStates session, [], False)) of
           (m, out, changed) \<Rightarrow> (session\<lparr>s_TimerStates := m\<rparr>, out, changed)))"

text \<open>
  \<open>keysOf m keys\<close>: the list \<open>keys\<close> is an order in which a \<open>range\<close> loop can visit the
  map \<open>m\<close> (every key exactly once).
\<close>

definition keysOf :: "('k \<rightharpoonup> 'v) \<Rightarrow> 'k list \<Rightarrow> bool" where
  "keysOf m keys = (distinct keys \<and> set keys = dom m)"

text \<open>
  A run of the supervisor loop seen from one session: one \<open>processSession\<close> per tick, with
  the reading of \<open>time.Now()\<close> and the two visiting orders of that tick.  Each notification
  is recorded with the time of its tick.
\<close>

fun processTicks ::
  "Supervisor \<Rightarrow> (Time \<times> string list \<times> string list) list \<Rightarrow> Session \<Rightarrow>
   Session \<times> (Time \<times> string \<times> notification) list" where
  "processTicks s [] session = (session, [])"
| "processTicks s ((now, keys1, keys2) # rest) session =
     (case processSession s now keys1 keys2 session of
        (session', out, changed) \<Rightarrow>
          (case processTicks s rest session' of
             (session'', out') \<Rightarrow> (session'', map (Pair now) out @ out')))"

text \<open>
  What one call of \<open>processSession\<close> does to a single timer of an active session: the
  body of the first loop, then the body of the second; and what a run of ticks does to it.
\<close>

definition superviseTimer ::
  "Supervisor \<Rightarrow> Time \<Rightarrow> TimerState \<Rightarrow> TimerState \<times> notification list" where
  "superviseTimer s now ts =
     (case countDown s now ts of
        (ts1, ns1, c1) \<Rightarrow>
          (case followUp s now ts1 of (ts2, ns2, c2) \<Rightarrow> (ts2, ns1 @ ns2)))"

fun timerTicks ::
  "Supervisor \<Rightarrow> Time list \<Rightarrow> TimerState \<Rightarrow> TimerState \<times> (Time \<times> notification) list" where
  "timerTicks s [] ts = (ts, [])"
| "timerTicks s (now # rest) ts =
     (case superviseTimer s now ts of
        (ts', ns) \<Rightarrow>
          (case timerTicks s rest ts' of (ts'', out) \<Rightarrow> (ts'', map (Pair now) ns @ out)))"

fun isUrgent :: "notification \<Rightarrow> bool" where
  "isUrgent (NotifyUrgent m) = True"
| "isUrgent (Notify m) = False"

text \<open>The notifications of a run that were sent for timer \<open>k\<close>, with their times.\<close>

definition notificationsFor ::
  "string \<Rightarrow> (Time \<times> string \<times> notification) list \<Rightarrow> (Time \<times> notification) list" where
  "notificationsFor k out = map (\<lambda>(t, k', n). (t, n)) (filter (\<lambda>(t, k', n). k' = k) out)"

section \<open>Mouth: the speech queue (package speech)\<close>

text \<open>\<open>type Priority int\<close> with its four named levels.\<close>

type_synonym Priority = int

definition PriorityLow :: Priority where "PriorityLow = 0"
definition PriorityNormal :: Priority where "PriorityNormal = 1"
definition PriorityHigh :: Priority where "PriorityHigh = 2"
definition PriorityCritical :: Priority where "PriorityCritical = 3"

record SpeechRequest =
  Text :: string
  Priority :: Priority
  QueuedAt :: Time

definition flushLowLocked :: "SpeechRequest list \<Rightarrow> SpeechRequest list" where
  "flushLowLocked queue = filter (\<lambda>item. Priority item > PriorityLow) queue"

text \<open>\<open>Say\<close>, with the reading of \<open>time.Now()\<close> as the argument \<open>now\<close>.\<close>

definition Say :: "string \<Rightarrow> Priority \<Rightarrow> Time \<Rightarrow> SpeechRequest list \<Rightarrow> SpeechRequest list" where
  "Say text priority now queue =
     (if priority \<ge> PriorityNormal then flushLowLocked queue else queue)
       @ [\<lparr>Text = text, Priority = priority, QueuedAt = now\<rparr>]"

definition Interrupt :: "SpeechRequest list \<Rightarrow> SpeechRequest list" where
  "Interrupt queue = []"

text \<open>The scan of \<open>dequeue\<close>: \<open>bestIdx\<close> moves only on a strictly higher priority.\<close>

definition bestIndex :: "SpeechRequest list \<Rightarrow> nat" where
  "bestIndex queue =
     fold (\<lambda>i bestIdx. if Priority (queue ! i) > Priority (queue ! bestIdx) then i else bestIdx)
       [0..<length queue] 0"

definition dequeue :: "SpeechRequest list \<Rightarrow> (SpeechRequest \<times> SpeechRequest list) option" where
  "dequeue queue =
     (if length queue = 0 then None
      else let bestIdx = bestIndex queue
           in Some (queue ! bestIdx, take bestIdx queue @ drop (Suc bestIdx) queue))"

text \<open>
  The requests in the order \<open>drain\<close> speaks them when nothing is queued meanwhile:
  \<open>dequeue\<close> until the queue is empty.
\<close>

function drainOrder :: "SpeechRequest list \<Rightarrow> SpeechRequest list" where
  "drainOrder queue =
     (case dequeue queue of None \<Rightarrow> [] | Some (item, rest) \<Rightarrow> item # drainOrder rest)"
  by pat_completeness auto
termination
proof (relation "measure length")
  show "wf (measure length)" by simp
next
  fix queue :: "SpeechRequest list" and x2 item rest
  assume d: "dequeue queue = Some x2" and x2: "(item, rest) = x2"
  have fold_bound: "fold f xs b < n" if "b < n" and "set xs \<subseteq> {..<n}"
    and "\<And>i b. f i b = i \<or> f i b = b" for f :: "nat \<Rightarrow> nat \<Rightarrow> nat" and xs b n
    using that
  proof (induction xs arbitrary: b)
    case Nil
    then show ?case by simp
  next
    case (Cons a xs)
    have "f a b < n" using Cons.prems(1,2) Cons.prems(3)[of a b] by auto
    then show ?case using Cons by simp
  qed
  from d have ne: "queue \<noteq> []" by (auto simp: dequeue_def split: if_splits)
  then have "bestIndex queue < length queue"
    unfolding bestIndex_def by (intro fold_bound) auto
  moreover from d x2 ne have "rest = take (bestIndex queue) queue @ drop (Suc (bestIndex queue)) queue"
    by (auto simp: dequeue_def Let_def split: if_splits)
  ultimately show "(rest, queue) \<in> measure length" by auto
qed

declare drainOrder.simps [simp del]

text \<open>
  The queues the Mouth can hold.  The first component is the latest reading of the clock:
  readings of \<open>time.Now()\<close> within one process never decrease.
\<close>

inductive queueReachable :: "Time \<Rightarrow> SpeechRequest list \<Rightarrow> bool" where
  qr_new: "queueReachable t []"
| qr_say: "queueReachable t queue \<Longrightarrow> t \<le> now \<Longrightarrow> queueReachable now (Say text priority now queue)"
| qr_interrupt: "queueReachable t queue \<Longrightarrow> queueReachable t (Interrupt queue)"
| qr_dequeue: "queueReachable t queue \<Longrightarrow> dequeue queue = Some (item, rest) \<Longrightarrow> queueReachable t rest"

section \<open>Recipe-mutation applier (package gpt)\<close>

record Action =
  a_Type :: string
  a_IngredientName :: string
  a_NewIngredientName :: string
  a_Quantity :: float64
  a_Unit :: string
  a_SizeDescriptor :: string
  a_StepIndex :: int
  a_Instruction :: string
  a_TimerLabel :: string
  a_TimerDuration :: string
  a_Servings :: int

text \<open>The renumbering loop: \<open>r.Steps[i].Order = i + 1\<close> for every index.\<close>

definition renumber :: "Step list \<Rightarrow> Step list" where
  "renumber steps = map (\<lambda>i. (steps ! i)\<lparr>st_Order := int i + 1\<rparr>) [0..<length steps]"

definition updateStep :: "Recipe \<Rightarrow> Action \<Rightarrow> error + Recipe" where
  "updateStep r act =
     (let idx = wrap64 (a_StepIndex act - 1) in
      if idx < 0 \<or> idx \<ge> int (length (r_Steps r))
      then Inl (StepOutOfRange (a_StepIndex act) (length (r_Steps r)))
      else if a_Instruction act \<noteq> []
      then Inr (r\<lparr>r_Steps := (r_Steps r)[nat idx :=
                  (r_Steps r ! nat idx)\<lparr>st_Instruction := a_Instruction act\<rparr>]\<rparr>)
      else Inr r)"

definition removeStep :: "Recipe \<Rightarrow> Action \<Rightarrow> error + Recipe" where
  "removeStep r act =
     (let idx = wrap64 (a_StepIndex act - 1) in
      if idx < 0 \<or> idx \<ge> int (length (r_Steps r))
      then Inl (StepOutOfRange (a_StepIndex act) (length (r_Steps r)))
      else Inr (r\<lparr>r_Steps := renumber (take (nat idx) (r_Steps r) @ drop (Suc (nat idx)) (r_Steps r))\<rparr>))"

text \<open>
  \<open>addStep\<close>: append a zero step, shift the tail right by one with \<open>copy\<close>, store the new
  step at \<open>idx\<close>, renumber.
\<close>

definition addStep :: "Recipe \<Rightarrow> Action \<Rightarrow> error + Recipe" where
  "addStep r act =
     (let idx0 = wrap64 (a_StepIndex act - 1);
          idx = (if idx0 < 0 \<or> idx0 > int (length (r_Steps r)) then length (r_Steps r) else nat idx0);
          newStep = \<lparr>st_ID = ''step-'' @ showInt (int (length (r_Steps r)) + 1),
                     st_Order = int idx + 1,
                     st_Instruction = a_Instruction act,
                     st_Duration = 0,
                     st_Conditions = [],
                     st_ParallelHints = [],
                     st_TimerConfig = None\<rparr>
      in Inr (r\<lparr>r_Steps := renumber (take idx (r_Steps r) @ [newStep] @ drop idx (r_Steps r))\<rparr>))"

section \<open>The supervisor on the store, and the reachable states\<close>

text \<open>
  \<open>tick\<close> lists the stored sessions and calls \<open>processSession\<close> on each of them; the
  session is mutated through the stored pointer and saved when \<open>changed\<close> is set.
  \<open>superviseSession\<close> is that step for the session stored under \<open>sessionID\<close>.
\<close>

definition superviseSession ::
  "Supervisor \<Rightarrow> Time \<Rightarrow> string list \<Rightarrow> string list \<Rightarrow> string \<Rightarrow> Engine \<Rightarrow>
   Engine \<times> (string \<times> notification) list" where
  "superviseSession s now keys1 keys2 sessionID e =
     (case store e sessionID of
        None \<Rightarrow> (e, [])
      | Some session \<Rightarrow>
          (case processSession s now keys1 keys2 session of
             (session', out, changed) \<Rightarrow>
               (if changed then Save e sessionID session' else e, out)))"

text \<open>
  Every timer configuration of the repository has a positive duration: the seed recipes
  are written that way and \<open>updateTimer\<close> rejects a duration that is not positive.
\<close>

definition timersPositive :: "(string \<rightharpoonup> Recipe) \<Rightarrow> bool" where
  "timersPositive rs =
     (\<forall>recipe \<in> ran rs. \<forall>step \<in> set (r_Steps recipe).
        case st_TimerConfig step of
          None \<Rightarrow> True
        | Some cfg \<Rightarrow> 0 < tc_Duration cfg \<and> tc_Duration cfg \<le> maxDuration)"

text \<open>
  Supervisor settings in the range of their types: \<open>time.NewTicker\<close> panics unless the
  tick interval is positive, and the escalation cap is below the largest \<open>int\<close>.
\<close>

definition supervisorOK :: "Supervisor \<Rightarrow> bool" where
  "supervisorOK s =
     (0 < tickInterval s \<and> tickInterval s \<le> maxDuration
      \<and> minDuration < notifyCooldown s \<and> notifyCooldown s \<le> maxDuration
      \<and> maxEscalation s < 2 ^ 63 - 1)"

text \<open>
  The engine states reachable from an empty store by the operations of the engine, by
  the supervisor, and by recipe updates.  Readings of \<open>time.Now()\<close> are positive (the
  zero time is year 1).
\<close>

inductive reachable :: "Engine \<Rightarrow> bool" where
  r_new: "store e = Map.empty \<Longrightarrow> timersPositive (recipes e) \<Longrightarrow> reachable e"
| r_recipes: "reachable e \<Longrightarrow> timersPositive rs \<Longrightarrow> reachable (e\<lparr>recipes := rs\<rparr>)"
| r_start: "reachable e \<Longrightarrow> StartSession e recipeID servings newID t1 t2 t3 = (res, e')
            \<Longrightarrow> reachable e'"
| r_advance: "reachable e \<Longrightarrow> Advance e now sessionID = (res', e') \<Longrightarrow> reachable e'"
| r_skip: "reachable e \<Longrightarrow> Skip e now sessionID = (res', e') \<Longrightarrow> reachable e'"
| r_pause: "reachable e \<Longrightarrow> Pause e now sessionID = (err, e') \<Longrightarrow> reachable e'"
| r_resume: "reachable e \<Longrightarrow> Resume e now sessionID = (res, e') \<Longrightarrow> reachable e'"
| r_abandon: "reachable e \<Longrightarrow> Abandon e now sessionID = (err, e') \<Longrightarrow> reachable e'"
| r_startPending: "reachable e \<Longrightarrow> StartPendingTimers e now keys sessionID = (cnt, e')
            \<Longrightarrow> reachable e'"
| r_dismiss: "reachable e \<Longrightarrow> DismissTimer e now sessionID tid = (err, e') \<Longrightarrow> reachable e'"
| r_supervise: "reachable e \<Longrightarrow> supervisorOK s \<Longrightarrow> 0 < now
            \<Longrightarrow> superviseSession s now keys1 keys2 sessionID e = (e', out) \<Longrightarrow> reachable e'"

text \<open>What holds of every timer and of every session in a reachable state.\<close>

definition timerInv :: "TimerState \<Rightarrow> bool" where
  "timerInv ts =
     (0 \<le> ts_Remaining ts \<and> ts_Remaining ts \<le> ts_Duration ts \<and> ts_Duration ts \<le> maxDuration
      \<and> (ts_Status ts = TimerFired \<longrightarrow>
            ts_Remaining ts = 0 \<and> 1 \<le> ts_EscalationLevel ts \<and> 0 < ts_LastNotified ts)
      \<and> (ts_Status ts \<in> {TimerPending, TimerRunning, TimerPaused} \<longrightarrow>
            0 < ts_Remaining ts \<and> ts_EscalationLevel ts = 0 \<and> ts_LastNotified ts = 0))"

definition sessionInv :: "Session \<Rightarrow> bool" where
  "sessionInv session =
     ((\<forall>ts \<in> ran (s_TimerStates session). timerInv ts)
      \<and> (s_Status session = SessionActive \<longrightarrow>
            (\<forall>ts \<in> ran (s_TimerStates session). ts_Status ts \<noteq> TimerPaused)))"

definition engineInv :: "Engine \<Rightarrow> bool" where
  "engineInv e = (timersPositive (recipes e) \<and> (\<forall>session \<in> ran (store e). sessionInv session))"

section \<open>Concrete data for the worked instances\<close>

definition exTimer :: TimerState where
  "exTimer = \<lparr>ts_ID = ''timer-ca-1'', ts_StepID = ''ca-1'', ts_Label = ''Water boiling'',
     ts_Duration = 8 * Minute, ts_Remaining = 8 * Minute, ts_Status = TimerRunning,
     ts_LastNotified = 0, ts_LastRemindedAt = 0, ts_WarnedAlmost = False,
     ts_EscalationLevel = 0\<rparr>"

text \<open>A recipe of two steps, the first with a two-second timer, and a recipe without steps.\<close>

definition exRecipe :: Recipe where
  "exRecipe = \<lparr>r_ID = ''demo'', r_Name = ''Demo'', r_Description = [], r_Servings = 2,
     r_Ingredients = [],
     r_Steps = [\<lparr>st_ID = ''d-1'', st_Order = 1, st_Instruction = ''Boil the water.'',
                  st_Duration = 2 * Second, st_Conditions = [], st_ParallelHints = [],
                  st_TimerConfig = Some \<lparr>tc_Duration = 2 * Second, tc_Label = ''Water''\<rparr>\<rparr>,
                \<lparr>st_ID = ''d-2'', st_Order = 2, st_Instruction = ''Serve.'',
                  st_Duration = 0, st_Conditions = [], st_ParallelHints = [],
                  st_TimerConfig = None\<rparr>],
     r_Tags = [], r_Version = 1\<rparr>"

definition emptyRecipe :: Recipe where
  "emptyRecipe = \<lparr>r_ID = ''empty'', r_Name = ''Empty'', r_Description = [], r_Servings = 2,
     r_Ingredients = [], r_Steps = [], r_Tags = [], r_Version = 1\<rparr>"

definition exEngine :: Engine where
  "exEngine = \<lparr>recipes = [''demo'' \<mapsto> exRecipe, ''empty'' \<mapsto> emptyRecipe],
     store = Map.empty, defaultServings = 2\<rparr>"

text \<open>
  The session \<open>''s1''\<close> as StartSession creates it on the demo recipe at time 100, then
  with its timer started at time 200, then paused at time 250.
\<close>

definition exPendingTimer :: TimerState where
  "exPendingTimer = \<lparr>ts_ID = ''timer-d-1'', ts_StepID = ''d-1'', ts_Label = ''Water'',
     ts_Duration = 2 * Second, ts_Remaining = 2 * Second, ts_Status = TimerPending,
     ts_LastNotified = 0, ts_LastRemindedAt = 0, ts_WarnedAlmost = False,
     ts_EscalationLevel = 0\<rparr>"

definition exSession :: Session where
  "exSession = \<lparr>s_ID = ''s1'', s_RecipeID = ''demo'', s_RecipeName = ''Demo'', s_Servings = 2,
     s_CurrentStepIndex = 0,
     s_StepStates = (initStepStates exRecipe)(0 \<mapsto>
                       \<lparr>ss_Status = StepActive, ss_StartedAt = 100, ss_CompletedAt = 0\<rparr>),
     s_TimerStates = [''timer-d-1'' \<mapsto> exPendingTimer],
     s_Status = SessionActive, s_StartedAt = 100, s_UpdatedAt = 100\<rparr>"

definition exStarted :: Engine where
  "exStarted = exEngine\<lparr>store := [''s1'' \<mapsto> exSession]\<rparr>"

definition exRunningSession :: Session where
  "exRunningSession = exSession\<lparr>
     s_TimerStates := [''timer-d-1'' \<mapsto> exPendingTimer\<lparr>ts_Status := TimerRunning\<rparr>],
     s_UpdatedAt := 200\<rparr>"

definition exRunning :: Engine where
  "exRunning = exEngine\<lparr>store := [''s1'' \<mapsto> exRunningSession]\<rparr>"

definition exPausedSession :: Session where
  "exPausedSession = exSession\<lparr>
     s_TimerStates := [''timer-d-1'' \<mapsto> exPendingTimer\<lparr>ts_Status := TimerPaused\<rparr>],
     s_Status := SessionPaused,
     s_UpdatedAt := 250\<rparr>"

definition exPaused :: Engine where
  "exPaused = exEngine\<lparr>store := [''s1'' \<mapsto> exPausedSession]\<rparr>"

definition exAction :: Action where
  "exAction = \<lparr>a_Type = ''add_step'', a_IngredientName = [], a_NewIngredientName = [],
     a_Quantity = 0, a_Unit = [], a_SizeDescriptor = [], a_StepIndex = 0,
     a_Instruction = ''Rest.'', a_TimerLabel = [], a_TimerDuration = [], a_Servings = 0\<rparr>"

text \<open>Four requests queued at times 10, 20, 30 and 40.\<close>

definition exQueue :: "SpeechRequest list" where
  "exQueue = Say ''a'' PriorityLow 40 (Say ''d'' PriorityHigh 30
               (Say ''c'' PriorityHigh 20 (Say ''b'' PriorityNormal 10 [])))"

text \<open>Two ticks of the supervisor, at seconds 10 and 11, on the only timer of the demo.\<close>

definition exTicks :: "(Time \<times> string list \<times> string list) list" where
  "exTicks = [(10 * Second, [''timer-d-1''], [''timer-d-1'']),
              (11 * Second, [''timer-d-1''], [''timer-d-1''])]"

text \<open>
  The demo session after one supervisor tick at second 10 (one second left on its timer),
  and sixty further ticks one second apart.
\<close>

definition exTickedSession :: Session where
  "exTickedSession = exRunningSession\<lparr>s_TimerStates :=
     [''timer-d-1'' \<mapsto> exPendingTimer\<lparr>ts_Status := TimerRunning, ts_Remaining := 1 * Second\<rparr>]\<rparr>"

definition exTicked :: Engine where
  "exTicked = exEngine\<lparr>store := [''s1'' \<mapsto> exTickedSession]\<rparr>"

definition exTicks60 :: "(Time \<times> string list \<times> string list) list" where
  "exTicks60 = map (\<lambda>i. (11 * Second + int i * Second, [''timer-d-1''], [''timer-d-1'']))
                 [0..<60]"

text \<open>The demo session with its running timer dismissed at time 300.\<close>

definition exDismissedTimer :: TimerState where
  "exDismissedTimer = exPendingTimer\<lparr>ts_Status := TimerDismissed\<rparr>"

definition exDismissedSession :: Session where
  "exDismissedSession = exRunningSession\<lparr>
     s_TimerStates := [''timer-d-1'' \<mapsto> exDismissedTimer], s_UpdatedAt := 300\<rparr>"

definition exDismissed :: Engine where
  "exDismissed = exEngine\<lparr>store := [''s1'' \<mapsto> exDismissedSession]\<rparr>"

section \<open>Arithmetic in the range of int64\<close>

lemma wrap64_id: "- (2 ^ 63) \<le> x \<Longrightarrow> x < 2 ^ 63 \<Longrightarrow> wrap64 x = x"
  by (simp add: wrap64_def)

section \<open>Invariants of the reachable states\<close>

lemma ran_updD: "v' \<in> ran (m(k \<mapsto> v)) \<Longrightarrow> v' = v \<or> v' \<in> ran m"
  by (auto simp: ran_def split: if_splits)

lemma ran_map_optionD: "v' \<in> ran (map_option f \<circ> m) \<Longrightarrow> \<exists>v \<in> ran m. v' = f v"
  by (auto simp: ran_def)

lemma engineInv_lookup: "engineInv e \<Longrightarrow> store e sid = Some session \<Longrightarrow> sessionInv session"
  by (auto simp: engineInv_def ran_def)

lemma engineInv_Save: "engineInv e \<Longrightarrow> sessionInv session \<Longrightarrow> engineInv (Save e sid session)"
  by (auto simp: engineInv_def Save_def dest!: ran_updD)

lemma sessionInv_same_timers:
  "sessionInv session \<Longrightarrow> s_TimerStates session' = s_TimerStates session
   \<Longrightarrow> (s_Status session' = SessionActive \<longrightarrow> s_Status session = SessionActive)
   \<Longrightarrow> sessionInv session'"
  by (auto simp: sessionInv_def)

lemma timerInv_new:
  "0 < tc_Duration cfg \<Longrightarrow> tc_Duration cfg \<le> maxDuration \<Longrightarrow>
   timerInv \<lparr>ts_ID = i, ts_StepID = j, ts_Label = l, ts_Duration = tc_Duration cfg,
     ts_Remaining = tc_Duration cfg, ts_Status = TimerPending, ts_LastNotified = 0,
     ts_LastRemindedAt = 0, ts_WarnedAlmost = False, ts_EscalationLevel = 0\<rparr>"
  by (simp add: timerInv_def)

lemma sessionInv_maybeStartTimer:
  assumes "sessionInv session"
    and "case st_TimerConfig step of None \<Rightarrow> True
         | Some cfg \<Rightarrow> 0 < tc_Duration cfg \<and> tc_Duration cfg \<le> maxDuration"
  shows "sessionInv (maybeStartTimer session step)"
proof (cases "st_TimerConfig step")
  case None
  then show ?thesis using assms by (simp add: maybeStartTimer_def)
next
  case (Some cfg)
  with assms(2) have "0 < tc_Duration cfg" "tc_Duration cfg \<le> maxDuration" by simp_all
  from timerInv_new [OF this] assms(1) Some show ?thesis
    by (auto simp: sessionInv_def maybeStartTimer_def dest!: ran_updD)
qed

lemma timersPositive_step:
  "timersPositive rs \<Longrightarrow> rs rid = Some recipe \<Longrightarrow> step \<in> set (r_Steps recipe) \<Longrightarrow>
   (case st_TimerConfig step of None \<Rightarrow> True
    | Some cfg \<Rightarrow> 0 < tc_Duration cfg \<and> tc_Duration cfg \<le> maxDuration)"
  unfolding timersPositive_def by (blast intro: ranI)

lemma engineInv_StartSession:
  assumes "engineInv e" "StartSession e recipeID servings newID t1 t2 t3 = (res, e')"
  shows "engineInv e'"
proof (cases "recipes e recipeID")
  case None
  with assms show ?thesis by (simp add: StartSession_def)
next
  case (Some recipe)
  show ?thesis
  proof (cases "r_Steps recipe")
    case Nil
    with Some assms show ?thesis by (simp add: StartSession_def initStepStates_def)
  next
    case (Cons step0 rest)
    let ?s1 = "\<lparr>s_ID = newID, s_RecipeID = r_ID recipe, s_RecipeName = r_Name recipe,
        s_Servings = (if servings \<le> 0 then defaultServings e else servings),
        s_CurrentStepIndex = 0,
        s_StepStates = (initStepStates recipe)(0 \<mapsto>
           \<lparr>ss_Status = StepActive, ss_StartedAt = t3, ss_CompletedAt = 0\<rparr>),
        s_TimerStates = Map.empty, s_Status = SessionActive,
        s_StartedAt = t1, s_UpdatedAt = t2\<rparr>"
    have e': "e' = Save e newID (maybeStartTimer ?s1 step0)"
      using assms(2) Some Cons by (simp add: StartSession_def initStepStates_def Let_def)
    have "sessionInv ?s1" by (simp add: sessionInv_def)
    moreover have "case st_TimerConfig step0 of None \<Rightarrow> True
         | Some cfg \<Rightarrow> 0 < tc_Duration cfg \<and> tc_Duration cfg \<le> maxDuration"
      using assms(1) Some Cons by (intro timersPositive_step [of "recipes e" recipeID recipe])
        (auto simp: engineInv_def)
    ultimately have "sessionInv (maybeStartTimer ?s1 step0)"
      by (rule sessionInv_maybeStartTimer)
    with assms(1) show ?thesis unfolding e' by (rule engineInv_Save)
  qed
qed

lemma engineInv_leaveStep:
  assumes inv: "engineInv e" and run: "leaveStep final e now sid = (res, e')"
  shows "engineInv e'"
proof (cases "store e sid")
  case None
  with run inv show ?thesis by (simp add: leaveStep_def)
next
  case (Some session)
  note sess = this
  have sinv: "sessionInv session" using inv sess by (rule engineInv_lookup)
  show ?thesis
  proof (cases "s_Status session = SessionActive")
    case False
    with run inv sess show ?thesis by (simp add: leaveStep_def)
  next
    case True
    note act = this
    show ?thesis
    proof (cases "recipes e (s_RecipeID session)")
      case None
      with run inv sess act show ?thesis by (simp add: leaveStep_def)
    next
      case (Some recipe)
      note rec = this
      show ?thesis
      proof (cases "s_StepStates session (s_CurrentStepIndex session)")
        case None
        with run inv sess act rec show ?thesis by (simp add: leaveStep_def)
      next
        case (Some current)
        note cur = this
        let ?s1 = "session\<lparr>s_StepStates := (s_StepStates session)(s_CurrentStepIndex session \<mapsto>
                           current\<lparr>ss_Status := final, ss_CompletedAt := now\<rparr>)\<rparr>"
        show ?thesis
        proof (cases "Suc (s_CurrentStepIndex session) \<ge> length (r_Steps recipe)")
          case True
          then have e': "e' = Save e sid (?s1\<lparr>s_Status := SessionCompleted, s_UpdatedAt := now\<rparr>)"
            using run sess act rec cur by (simp add: leaveStep_def Let_def)
          have "sessionInv (?s1\<lparr>s_Status := SessionCompleted, s_UpdatedAt := now\<rparr>)"
            using sinv by (rule sessionInv_same_timers) simp_all
          with inv show ?thesis unfolding e' by (rule engineInv_Save)
        next
          case False
          note more = this
          show ?thesis
          proof (cases "s_StepStates session (Suc (s_CurrentStepIndex session))")
            case None
            with run inv sess act rec cur more show ?thesis by (simp add: leaveStep_def Let_def)
          next
            case (Some nxt)
            let ?s2 = "?s1\<lparr>s_CurrentStepIndex := Suc (s_CurrentStepIndex session),
                 s_StepStates := (s_StepStates ?s1)(Suc (s_CurrentStepIndex session) \<mapsto>
                    nxt\<lparr>ss_Status := StepActive, ss_StartedAt := now\<rparr>),
                 s_UpdatedAt := now\<rparr>"
            let ?step = "r_Steps recipe ! Suc (s_CurrentStepIndex session)"
            have e': "e' = Save e sid (maybeStartTimer ?s2 ?step)"
              using run sess act rec cur more Some by (simp add: leaveStep_def Let_def)
            have "sessionInv ?s2" using sinv by (rule sessionInv_same_timers) simp_all
            moreover have "case st_TimerConfig ?step of None \<Rightarrow> True
                | Some cfg \<Rightarrow> 0 < tc_Duration cfg \<and> tc_Duration cfg \<le> maxDuration"
              using inv rec more
              by (intro timersPositive_step [of "recipes e" "s_RecipeID session" recipe])
                (auto simp: engineInv_def)
            ultimately have "sessionInv (maybeStartTimer ?s2 ?step)"
              by (rule sessionInv_maybeStartTimer)
            with inv show ?thesis unfolding e' by (rule engineInv_Save)
          qed
        qed
      qed
    qed
  qed
qed


lemma timerInv_pauseTimer: "timerInv ts \<Longrightarrow> timerInv (pauseTimer ts)"
  by (auto simp: timerInv_def pauseTimer_def)

lemma timerInv_resumeTimer: "timerInv ts \<Longrightarrow> timerInv (resumeTimer ts)"
  by (auto simp: timerInv_def resumeTimer_def)

lemma timerInv_startTimer: "timerInv ts \<Longrightarrow> timerInv (startTimer ts)"
  by (auto simp: timerInv_def startTimer_def)

lemma timerInv_dismiss: "timerInv ts \<Longrightarrow> timerInv (ts\<lparr>ts_Status := TimerDismissed\<rparr>)"
  by (auto simp: timerInv_def)

lemma resumeTimer_not_paused: "ts_Status (resumeTimer ts) \<noteq> TimerPaused"
  by (simp add: resumeTimer_def)

lemma startTimer_paused: "ts_Status (startTimer ts) = TimerPaused \<longleftrightarrow> ts_Status ts = TimerPaused"
  by (simp add: startTimer_def)

lemma engineInv_Pause:
  assumes inv: "engineInv e" and run: "Pause e now sid = (err, e')"
  shows "engineInv e'"
proof (cases "store e sid")
  case None
  with run inv show ?thesis by (simp add: Pause_def)
next
  case (Some session)
  have sinv: "sessionInv session" using inv Some by (rule engineInv_lookup)
  show ?thesis
  proof (cases "s_Status session = SessionActive")
    case False
    with run inv Some show ?thesis by (simp add: Pause_def)
  next
    case True
    let ?s' = "session\<lparr>s_Status := SessionPaused, s_UpdatedAt := now,
                    s_TimerStates := map_option pauseTimer \<circ> s_TimerStates session\<rparr>"
    have e': "e' = Save e sid ?s'" using run Some True by (simp add: Pause_def)
    have "sessionInv ?s'" using sinv
      by (auto simp: sessionInv_def dest!: ran_map_optionD intro: timerInv_pauseTimer)
    with inv show ?thesis unfolding e' by (rule engineInv_Save)
  qed
qed

lemma engineInv_Resume:
  assumes inv: "engineInv e" and run: "Resume e now sid = (res, e')"
  shows "engineInv e'"
proof (cases "store e sid")
  case None
  with run inv show ?thesis by (simp add: Resume_def)
next
  case (Some session)
  have sinv: "sessionInv session" using inv Some by (rule engineInv_lookup)
  show ?thesis
  proof (cases "s_Status session = SessionPaused")
    case False
    with run inv Some show ?thesis by (simp add: Resume_def)
  next
    case True
    let ?s' = "session\<lparr>s_Status := SessionActive, s_UpdatedAt := now,
                    s_TimerStates := map_option resumeTimer \<circ> s_TimerStates session\<rparr>"
    have e': "e' = Save e sid ?s'" using run Some True by (simp add: Resume_def Let_def)
    have "sessionInv ?s'" using sinv
      by (auto simp: sessionInv_def resumeTimer_not_paused dest!: ran_map_optionD
          intro: timerInv_resumeTimer)
    with inv show ?thesis unfolding e' by (rule engineInv_Save)
  qed
qed

lemma engineInv_Abandon:
  assumes inv: "engineInv e" and run: "Abandon e now sid = (err, e')"
  shows "engineInv e'"
proof (cases "store e sid")
  case None
  with run inv show ?thesis by (simp add: Abandon_def)
next
  case (Some session)
  have sinv: "sessionInv session" using inv Some by (rule engineInv_lookup)
  have e': "e' = Save e sid (session\<lparr>s_Status := SessionAbandoned, s_UpdatedAt := now\<rparr>)"
    using run Some by (simp add: Abandon_def)
  have "sessionInv (session\<lparr>s_Status := SessionAbandoned, s_UpdatedAt := now\<rparr>)"
    using sinv by (rule sessionInv_same_timers) simp_all
  with inv show ?thesis unfolding e' by (rule engineInv_Save)
qed

lemma engineInv_StartPendingTimers:
  assumes inv: "engineInv e" and run: "StartPendingTimers e now keys sid = (cnt, e')"
  shows "engineInv e'"
proof (cases "store e sid")
  case None
  with run inv show ?thesis by (simp add: StartPendingTimers_def)
next
  case (Some session)
  have sinv: "sessionInv session" using inv Some by (rule engineInv_lookup)
  let ?s' = "session\<lparr>s_TimerStates := map_option startTimer \<circ> s_TimerStates session,
                        s_UpdatedAt := now\<rparr>"
  have "e' = e \<or> e' = Save e sid ?s'"
    using run Some by (auto simp: StartPendingTimers_def Let_def split: if_splits)
  moreover have "sessionInv ?s'" using sinv
    by (auto simp: sessionInv_def startTimer_paused dest!: ran_map_optionD
        intro: timerInv_startTimer)
  ultimately show ?thesis using inv by (auto intro: engineInv_Save)
qed

lemma engineInv_DismissTimer:
  assumes inv: "engineInv e" and run: "DismissTimer e now sid tid = (err, e')"
  shows "engineInv e'"
proof (cases "store e sid")
  case None
  with run inv show ?thesis by (simp add: DismissTimer_def)
next
  case (Some session)
  have sinv: "sessionInv session" using inv Some by (rule engineInv_lookup)
  show ?thesis
  proof (cases "s_TimerStates session tid")
    case None
    with run inv Some show ?thesis by (simp add: DismissTimer_def)
  next
    case (Some ts)
    note ts = this
    let ?s' = "session\<lparr>s_TimerStates := (s_TimerStates session)(tid \<mapsto>
                                  ts\<lparr>ts_Status := TimerDismissed\<rparr>),
                               s_UpdatedAt := now\<rparr>"
    have "e' = e \<or> e' = Save e sid ?s'"
      using run \<open>store e sid = Some session\<close> ts
      by (auto simp: DismissTimer_def split: if_splits)
    moreover have "timerInv ts" using sinv ts by (auto simp: sessionInv_def ran_def)
    then have "sessionInv ?s'" using sinv
      by (auto simp: sessionInv_def dest!: ran_updD intro: timerInv_dismiss)
    ultimately show ?thesis using inv by (auto intro: engineInv_Save)
  qed
qed


lemma countDown_no_wrap:
  assumes "timerInv ts" "ts_Status ts = TimerRunning" "0 < tickInterval s" "tickInterval s \<le> maxDuration"
  shows "wrap64 (ts_Remaining ts - tickInterval s) = ts_Remaining ts - tickInterval s"
proof -
  from assms have "0 < ts_Remaining ts" "ts_Remaining ts \<le> maxDuration"
    by (auto simp: timerInv_def)
  with assms(3,4) show ?thesis by (intro wrap64_id) (auto simp: maxDuration_def)
qed

lemma timerInv_countDown:
  assumes inv: "timerInv ts" and ok: "supervisorOK s" and now: "0 < now"
  shows "timerInv (fst (countDown s now ts))"
proof (cases "ts_Status ts = TimerRunning")
  case False
  then show ?thesis using inv by (simp add: countDown_def)
next
  case True
  from ok have tick: "0 < tickInterval s" "tickInterval s \<le> maxDuration"
    by (simp_all add: supervisorOK_def)
  have w: "wrap64 (ts_Remaining ts - tickInterval s) = ts_Remaining ts - tickInterval s"
    using inv True tick by (rule countDown_no_wrap)
  from inv True have r: "0 < ts_Remaining ts" "ts_Remaining ts \<le> ts_Duration ts"
     "ts_Duration ts \<le> maxDuration" "ts_EscalationLevel ts = 0" "ts_LastNotified ts = 0"
    by (auto simp: timerInv_def)
  show ?thesis using True w r tick now
    by (simp add: countDown_def Let_def timerInv_def)
qed

lemma timerInv_followUp:
  assumes inv: "timerInv ts" and ok: "supervisorOK s" and now: "0 < now"
  shows "timerInv (fst (followUp s now ts))"
proof (cases "ts_Status ts = TimerFired \<and> ts_EscalationLevel ts \<le> maxEscalation s")
  case False
  then show ?thesis using inv by (auto simp: followUp_def)
next
  case True
  with inv have l: "1 \<le> ts_EscalationLevel ts" by (simp add: timerInv_def)
  from True ok have "ts_EscalationLevel ts + 1 < 2 ^ 63" by (simp add: supervisorOK_def)
  with l have "wrap64 (ts_EscalationLevel ts + 1) = ts_EscalationLevel ts + 1"
    by (intro wrap64_id) auto
  then show ?thesis using True inv l now by (auto simp: followUp_def timerInv_def)
qed

lemma countDown_not_paused:
  "ts_Status ts \<noteq> TimerPaused \<Longrightarrow> ts_Status (fst (countDown s now ts)) \<noteq> TimerPaused"
  by (auto simp: countDown_def Let_def)

lemma followUp_not_paused:
  "ts_Status ts \<noteq> TimerPaused \<Longrightarrow> ts_Status (fst (followUp s now ts)) \<noteq> TimerPaused"
  by (auto simp: followUp_def)

lemma rangeTimers_ran:
  assumes "\<And>ts. P ts \<Longrightarrow> P (fst (body ts))"
  shows "\<forall>ts \<in> ran (fst acc). P ts \<Longrightarrow> \<forall>ts \<in> ran (fst (rangeTimers body ks acc)). P ts"
proof (induction ks arbitrary: acc)
  case Nil
  then show ?case by simp
next
  case (Cons k ks)
  obtain m out ch where acc: "acc = (m, out, ch)" by (cases acc)
  show ?case
  proof (cases "m k")
    case None
    have "\<forall>t \<in> ran (fst (m, out, ch)). P t" using Cons.prems acc by simp
    from Cons.IH [OF this] show ?thesis using acc None by simp
  next
    case (Some ts)
    obtain ts' ns c where b: "body ts = (ts', ns, c)" by (cases "body ts")
    have "P ts" using Cons.prems acc Some by (auto simp: ran_def)
    then have "P ts'" using assms [of ts] b by simp
    then have "\<forall>t \<in> ran (fst (m(k \<mapsto> ts'), out @ map (Pair k) ns, ch \<or> c)). P t"
      using Cons.prems acc by (auto dest!: ran_updD)
    from Cons.IH [OF this] show ?thesis using acc Some b by simp
  qed
qed

lemma sessionInv_processSession:
  assumes inv: "sessionInv session" and ok: "supervisorOK s" and now: "0 < now"
  shows "sessionInv (fst (processSession s now keys1 keys2 session))"
proof (cases "s_Status session = SessionActive")
  case False
  then show ?thesis using inv by (simp add: processSession_def)
next
  case True
  let ?P = "\<lambda>ts. timerInv ts \<and> ts_Status ts \<noteq> TimerPaused"
  let ?a1 = "rangeTimers (countDown s now) keys1 (s_TimerStates session, [], False)"
  let ?a2 = "rangeTimers (followUp s now) keys2 ?a1"
  have "\<forall>ts \<in> ran (fst (s_TimerStates session, [] :: (string \<times> notification) list, False)). ?P ts"
    using inv True by (simp add: sessionInv_def)
  then have "\<forall>ts \<in> ran (fst ?a1). ?P ts"
    by (rule rangeTimers_ran [rotated]) (simp add: timerInv_countDown ok now countDown_not_paused)
  then have "\<forall>ts \<in> ran (fst ?a2). ?P ts"
    by (rule rangeTimers_ran [rotated]) (simp add: timerInv_followUp ok now followUp_not_paused)
  then show ?thesis using True
    by (simp add: processSession_def sessionInv_def split: prod.splits)
qed

lemma engineInv_superviseSession:
  assumes inv: "engineInv e" and ok: "supervisorOK s" and now: "0 < now"
    and run: "superviseSession s now keys1 keys2 sid e = (e', out)"
  shows "engineInv e'"
proof (cases "store e sid")
  case None
  with run inv show ?thesis by (simp add: superviseSession_def)
next
  case (Some session)
  have sinv: "sessionInv session" using inv Some by (rule engineInv_lookup)
  obtain session' out' ch where p: "processSession s now keys1 keys2 session = (session', out', ch)"
    by (cases "processSession s now keys1 keys2 session")
  have "sessionInv session'" using sessionInv_processSession [OF sinv ok now, of keys1 keys2] p
    by simp
  moreover have "e' = e \<or> e' = Save e sid session'"
    using run Some p by (auto simp: superviseSession_def split: if_splits)
  ultimately show ?thesis using inv by (auto intro: engineInv_Save)
qed

lemma reachable_engineInv: "reachable e \<Longrightarrow> engineInv e"
proof (induction rule: reachable.induct)
  case (r_new e)
  then show ?case by (simp add: engineInv_def)
next
  case (r_recipes e rs)
  then show ?case by (simp add: engineInv_def)
next
  case (r_start e recipeID servings newID t1 t2 t3 res e')
  then show ?case by (blast intro: engineInv_StartSession)
next
  case (r_advance e now sessionID res' e')
  then show ?case unfolding Advance_def by (blast intro: engineInv_leaveStep)
next
  case (r_skip e now sessionID res' e')
  then show ?case unfolding Skip_def by (blast intro: engineInv_leaveStep)
next
  case (r_pause e now sessionID err e')
  then show ?case by (blast intro: engineInv_Pause)
next
  case (r_resume e now sessionID res e')
  then show ?case by (blast intro: engineInv_Resume)
next
  case (r_abandon e now sessionID err e')
  then show ?case by (blast intro: engineInv_Abandon)
next
  case (r_startPending e now keys sessionID cnt e')
  then show ?case by (blast intro: engineInv_StartPendingTimers)
next
  case (r_dismiss e now sessionID tid err e')
  then show ?case by (blast intro: engineInv_DismissTimer)
next
  case (r_supervise e s now keys1 keys2 sessionID e' out)
  then show ?case by (blast intro: engineInv_superviseSession)
qed

section \<open>The worked instances are reachable\<close>

lemma StartSession_exEngine:
  "StartSession exEngine ''demo'' 0 ''s1'' 100 100 100 = (Inr exSession, exStarted)"
proof -
  have r: "recipes exEngine ''demo'' = Some exRecipe" by (simp add: exEngine_def)
  obtain step0 rest where st: "r_Steps exRecipe = step0 # rest"
    "st_TimerConfig step0 = Some \<lparr>tc_Duration = 2 * Second, tc_Label = ''Water''\<rparr>"
    "st_ID step0 = ''d-1''"
    by (simp add: exRecipe_def)
  have n: "r_ID exRecipe = ''demo''" "r_Name exRecipe = ''Demo''"
    by (simp_all add: exRecipe_def)
  have i: "initStepStates exRecipe 0
      = Some \<lparr>ss_Status = StepPending, ss_StartedAt = 0, ss_CompletedAt = 0\<rparr>"
    by (simp add: initStepStates_def st)
  have d: "defaultServings exEngine = 2" "store exEngine = Map.empty"
    by (simp_all add: exEngine_def)
  show ?thesis
    unfolding StartSession_def r option.case Let_def
    by (simp add: i st n d maybeStartTimer_def timerID_def Save_def exSession_def exStarted_def
        exPendingTimer_def)
qed

lemma StartPendingTimers_exStarted:
  "StartPendingTimers exStarted 200 [''timer-d-1''] ''s1'' = (Inr 1, exRunning)"
  by (simp add: StartPendingTimers_def exStarted_def exSession_def Let_def Save_def
      exRunning_def exRunningSession_def exPendingTimer_def startTimer_def)

lemma Pause_exRunning: "Pause exRunning 250 ''s1'' = (None, exPaused)"
  by (simp add: Pause_def exRunning_def exRunningSession_def exSession_def Save_def
      exPaused_def exPausedSession_def pauseTimer_def)

lemma reachable_exEngine: "reachable exEngine"
proof (rule r_new)
  show "store exEngine = Map.empty" by (simp add: exEngine_def)
  show "timersPositive (recipes exEngine)"
    unfolding timersPositive_def
  proof (intro ballI)
    fix recipe step
    assume "recipe \<in> ran (recipes exEngine)" and step: "step \<in> set (r_Steps recipe)"
    then have "recipe = exRecipe \<or> recipe = emptyRecipe"
      by (auto simp: exEngine_def ran_def split: if_splits)
    with step show "case st_TimerConfig step of None \<Rightarrow> True
        | Some cfg \<Rightarrow> 0 < tc_Duration cfg \<and> tc_Duration cfg \<le> maxDuration"
      by (auto simp: exRecipe_def emptyRecipe_def Second_def maxDuration_def)
  qed
qed

lemma reachable_exStarted: "reachable exStarted"
  using reachable_exEngine StartSession_exEngine by (rule r_start)

lemma reachable_exRunning: "reachable exRunning"
  using reachable_exStarted StartPendingTimers_exStarted by (rule r_startPending)

lemma reachable_exPaused: "reachable exPaused"
  using reachable_exRunning Pause_exRunning by (rule r_pause)

lemma Save_lookup: "store (Save e sid session) sid = Some session"
  by (simp add: Save_def)

lemma reachable_sessionInv:
  "reachable e \<Longrightarrow> store e sid = Some session \<Longrightarrow> sessionInv session"
  by (blast intro: reachable_engineInv engineInv_lookup)

lemma resume_pause_timer:
  "ts_Status ts \<noteq> TimerPaused \<Longrightarrow> resumeTimer (pauseTimer ts) = ts"
  by (simp add: resumeTimer_def pauseTimer_def)

section \<open>One timer under the supervisor\<close>

lemma rangeTimers_lookup:
  "distinct ks \<Longrightarrow>
   fst (rangeTimers body ks (m, out, ch)) k
     = (if k \<in> set ks then map_option (\<lambda>ts. fst (body ts)) (m k) else m k)"
proof (induction ks arbitrary: m out ch)
  case Nil
  then show ?case by simp
next
  case (Cons a ks)
  then have d: "distinct ks" "a \<notin> set ks" by simp_all
  show ?case
  proof (cases "m a")
    case None
    then show ?thesis using Cons.IH [OF d(1)] d(2) by auto
  next
    case (Some ts)
    obtain ts' ns c where b: "body ts = (ts', ns, c)" by (cases "body ts")
    show ?thesis using Some b Cons.IH [OF d(1)] d(2) by auto
  qed
qed

lemma rangeTimers_out:
  "distinct ks \<Longrightarrow>
   filter (\<lambda>(k', n). k' = k) (fst (snd (rangeTimers body ks (m, out, ch))))
     = filter (\<lambda>(k', n). k' = k) out
       @ (if k \<in> set ks
          then (case m k of None \<Rightarrow> [] | Some ts \<Rightarrow> map (Pair k) (fst (snd (body ts))))
          else [])"
proof (induction ks arbitrary: m out ch)
  case Nil
  then show ?case by simp
next
  case (Cons a ks)
  then have d: "distinct ks" "a \<notin> set ks" by simp_all
  show ?case
  proof (cases "m a")
    case None
    then show ?thesis using Cons.IH [OF d(1)] d(2) by auto
  next
    case (Some ts)
    obtain ts' ns c where b: "body ts = (ts', ns, c)" by (cases "body ts")
    have f1: "filter (\<lambda>(k', n). k' = k) (map (Pair a) ns) = (if a = k then map (Pair k) ns else [])"
      by (induction ns) auto
    show ?thesis using Some b Cons.IH [OF d(1)] d(2) f1 by auto
  qed
qed

lemma rangeTimers_dom:
  "dom (fst (rangeTimers body ks (m, out, ch))) = dom m"
proof (induction ks arbitrary: m out ch)
  case Nil
  then show ?case by simp
next
  case (Cons a ks)
  show ?case
  proof (cases "m a")
    case None
    then show ?thesis using Cons.IH by simp
  next
    case (Some ts)
    obtain ts' ns c where b: "body ts = (ts', ns, c)" by (cases "body ts")
    have "dom (fst (rangeTimers body ks (m(a \<mapsto> ts'), out @ map (Pair a) ns, ch \<or> c)))
            = dom (m(a \<mapsto> ts'))"
      by (rule Cons.IH)
    also have "\<dots> = dom m" using Some by auto
    finally show ?thesis using Some b by simp
  qed
qed

lemma processSession_timer:
  assumes active: "s_Status session = SessionActive"
    and k: "s_TimerStates session k = Some ts"
    and k1: "keysOf (s_TimerStates session) keys1" and k2: "keysOf (s_TimerStates session) keys2"
  shows "s_TimerStates (fst (processSession s now keys1 keys2 session)) k
           = Some (fst (superviseTimer s now ts))"
    and "map snd (filter (\<lambda>(k', n). k' = k) (fst (snd (processSession s now keys1 keys2 session))))
           = snd (superviseTimer s now ts)"
    and "s_Status (fst (processSession s now keys1 keys2 session)) = SessionActive"
    and "dom (s_TimerStates (fst (processSession s now keys1 keys2 session)))
           = dom (s_TimerStates session)"
proof -
  let ?m = "s_TimerStates session"
  obtain m1 out1 ch1 where a1:
    "rangeTimers (countDown s now) keys1 (?m, [], False) = (m1, out1, ch1)"
    by (cases "rangeTimers (countDown s now) keys1 (?m, [], False)")
  obtain m2 out2 ch2 where a2:
    "rangeTimers (followUp s now) keys2 (m1, out1, ch1) = (m2, out2, ch2)"
    by (cases "rangeTimers (followUp s now) keys2 (m1, out1, ch1)")
  have p: "processSession s now keys1 keys2 session = (session\<lparr>s_TimerStates := m2\<rparr>, out2, ch2)"
    using active a1 a2 by (simp add: processSession_def)
  from k1 k2 k have d: "distinct keys1" "distinct keys2" "k \<in> set keys1" "k \<in> set keys2"
    by (auto simp: keysOf_def)
  obtain ts1 ns1 c1 where c: "countDown s now ts = (ts1, ns1, c1)" by (cases "countDown s now ts")
  obtain ts2 ns2 c2 where f: "followUp s now ts1 = (ts2, ns2, c2)" by (cases "followUp s now ts1")
  have st: "superviseTimer s now ts = (ts2, ns1 @ ns2)" by (simp add: superviseTimer_def c f)
  have m1k: "m1 k = Some ts1"
    using rangeTimers_lookup [OF d(1), of "countDown s now" ?m "[]" False k] a1 d(3) k c by simp
  have o1: "filter (\<lambda>(k', n). k' = k) out1 = map (Pair k) ns1"
    using rangeTimers_out [OF d(1), of k "countDown s now" ?m "[]" False] a1 d(3) k c by simp
  have m2k: "m2 k = Some ts2"
    using rangeTimers_lookup [OF d(2), of "followUp s now" m1 out1 ch1 k] a2 d(4) m1k f by simp
  have o2: "filter (\<lambda>(k', n). k' = k) out2 = map (Pair k) ns1 @ map (Pair k) ns2"
    using rangeTimers_out [OF d(2), of k "followUp s now" m1 out1 ch1] a2 d(4) m1k f o1 by simp
  have dm: "dom m2 = dom ?m"
    using rangeTimers_dom [of "countDown s now" keys1 ?m "[]" False]
      rangeTimers_dom [of "followUp s now" keys2 m1 out1 ch1] a1 a2 by simp
  show "s_TimerStates (fst (processSession s now keys1 keys2 session)) k
           = Some (fst (superviseTimer s now ts))"
    by (simp add: p st m2k)
  show "map snd (filter (\<lambda>(k', n). k' = k) (fst (snd (processSession s now keys1 keys2 session))))
           = snd (superviseTimer s now ts)"
    by (simp add: p st o2 comp_def)
  show "s_Status (fst (processSession s now keys1 keys2 session)) = SessionActive"
    by (simp add: p active)
  show "dom (s_TimerStates (fst (processSession s now keys1 keys2 session)))
           = dom (s_TimerStates session)"
    by (simp add: p dm)
qed

lemma notificationsFor_append:
  "notificationsFor k (xs @ ys) = notificationsFor k xs @ notificationsFor k ys"
  by (simp add: notificationsFor_def)

lemma notificationsFor_tick:
  "notificationsFor k (map (Pair now) out)
     = map (Pair now) (map snd (filter (\<lambda>(k', n). k' = k) out))"
  by (induction out) (auto simp: notificationsFor_def)

lemma processTicks_timer:
  assumes "s_Status session = SessionActive"
    and "s_TimerStates session k = Some ts"
    and "\<forall>(now, keys1, keys2) \<in> set ticks.
           keysOf (s_TimerStates session) keys1 \<and> keysOf (s_TimerStates session) keys2"
  shows "s_TimerStates (fst (processTicks s ticks session)) k
           = Some (fst (timerTicks s (map fst ticks) ts))
       \<and> notificationsFor k (snd (processTicks s ticks session))
           = snd (timerTicks s (map fst ticks) ts)
       \<and> s_Status (fst (processTicks s ticks session)) = SessionActive
       \<and> dom (s_TimerStates (fst (processTicks s ticks session))) = dom (s_TimerStates session)"
  using assms
proof (induction ticks arbitrary: session ts)
  case Nil
  then show ?case by (simp add: notificationsFor_def)
next
  case (Cons tick ticks)
  obtain now keys1 keys2 where t: "tick = (now, keys1, keys2)" by (cases tick)
  obtain session' out ch where p: "processSession s now keys1 keys2 session = (session', out, ch)"
    by (cases "processSession s now keys1 keys2 session")
  from Cons.prems(3) t have ks: "keysOf (s_TimerStates session) keys1"
    "keysOf (s_TimerStates session) keys2" by simp_all
  note pt = processSession_timer [OF Cons.prems(1,2) ks, of s now, unfolded p, simplified]
  obtain ts' ns where st: "superviseTimer s now ts = (ts', ns)" by (cases "superviseTimer s now ts")
  have k': "s_TimerStates session' k = Some ts'" using pt(1) st by simp
  have "\<forall>(now, keys1, keys2) \<in> set ticks.
           keysOf (s_TimerStates session') keys1 \<and> keysOf (s_TimerStates session') keys2"
    using Cons.prems(3) pt(4) by (auto simp: keysOf_def)
  from Cons.IH [OF pt(3) k' this]
  have IH: "s_TimerStates (fst (processTicks s ticks session')) k
           = Some (fst (timerTicks s (map fst ticks) ts'))"
       "notificationsFor k (snd (processTicks s ticks session'))
           = snd (timerTicks s (map fst ticks) ts')"
       "s_Status (fst (processTicks s ticks session')) = SessionActive"
       "dom (s_TimerStates (fst (processTicks s ticks session'))) = dom (s_TimerStates session')"
    by simp_all
  obtain session'' out' where q: "processTicks s ticks session' = (session'', out')"
    by (cases "processTicks s ticks session'")
  obtain ts'' ns' where r: "timerTicks s (map fst ticks) ts' = (ts'', ns')"
    by (cases "timerTicks s (map fst ticks) ts'")
  show ?case
    using IH pt st
    by (simp add: t p q r notificationsFor_append notificationsFor_tick)
qed

lemma Sub_less_iff:
  "minDuration < c \<Longrightarrow> c \<le> maxDuration \<Longrightarrow> Sub t u < c \<longleftrightarrow> t - u < c"
  by (auto simp: Sub_def)

lemma timerInv_superviseTimer:
  assumes "timerInv ts" "supervisorOK s" "0 < now"
  shows "timerInv (fst (superviseTimer s now ts))"
proof -
  obtain ts1 ns1 c1 where c: "countDown s now ts = (ts1, ns1, c1)" by (cases "countDown s now ts")
  obtain ts2 ns2 c2 where f: "followUp s now ts1 = (ts2, ns2, c2)" by (cases "followUp s now ts1")
  have "timerInv ts1" using timerInv_countDown [OF assms] c by simp
  from timerInv_followUp [OF this assms(2,3)] f have "timerInv ts2" by simp
  then show ?thesis by (simp add: superviseTimer_def c f)
qed

lemma superviseTimer_stays_running:
  assumes inv: "timerInv ts" and run: "ts_Status ts = TimerRunning" and ok: "supervisorOK s"
    and pos: "0 < ts_Remaining ts - tickInterval s"
  shows "ts_Status (fst (superviseTimer s now ts)) = TimerRunning"
    and "ts_Remaining (fst (superviseTimer s now ts)) = ts_Remaining ts - tickInterval s"
    and "ts_Label (fst (superviseTimer s now ts)) = ts_Label ts"
    and "\<forall>n \<in> set (snd (superviseTimer s now ts)). \<not> isUrgent n"
proof -
  from ok have tick: "0 < tickInterval s" "tickInterval s \<le> maxDuration"
    by (simp_all add: supervisorOK_def)
  have w: "wrap64 (ts_Remaining ts - tickInterval s) = ts_Remaining ts - tickInterval s"
    using inv run tick by (rule countDown_no_wrap)
  obtain ts1 ns1 c1 where c: "countDown s now ts = (ts1, ns1, c1)" by (cases "countDown s now ts")
  have c1: "ts_Status ts1 = TimerRunning" "ts_Remaining ts1 = ts_Remaining ts - tickInterval s"
    "ts_Label ts1 = ts_Label ts" "\<forall>n \<in> set ns1. \<not> isUrgent n"
    using c run w pos by (auto simp: countDown_def Let_def split: if_splits)
  then have f: "followUp s now ts1 = (ts1, [], False)" by (simp add: followUp_def)
  have st: "superviseTimer s now ts = (ts1, ns1)" by (simp add: superviseTimer_def c f)
  show "ts_Status (fst (superviseTimer s now ts)) = TimerRunning"
    and "ts_Remaining (fst (superviseTimer s now ts)) = ts_Remaining ts - tickInterval s"
    and "ts_Label (fst (superviseTimer s now ts)) = ts_Label ts"
    and "\<forall>n \<in> set (snd (superviseTimer s now ts)). \<not> isUrgent n"
    using c1 by (simp_all add: st)
qed

lemma superviseTimer_fires:
  assumes inv: "timerInv ts" and run: "ts_Status ts = TimerRunning" and ok: "supervisorOK s"
    and cool: "0 < notifyCooldown s" and now: "0 < now"
    and due: "ts_Remaining ts - tickInterval s \<le> 0"
  shows "superviseTimer s now ts
           = (ts\<lparr>ts_Remaining := 0, ts_Status := TimerFired, ts_LastNotified := now,
                 ts_EscalationLevel := 1\<rparr>,
              [NotifyUrgent (''[Timer] '' @ ts_Label ts @ '' is up.'')])"
proof -
  from ok have tick: "0 < tickInterval s" "tickInterval s \<le> maxDuration"
    by (simp_all add: supervisorOK_def)
  have w: "wrap64 (ts_Remaining ts - tickInterval s) = ts_Remaining ts - tickInterval s"
    using inv run tick by (rule countDown_no_wrap)
  from inv run have l: "ts_EscalationLevel ts = 0" by (simp add: timerInv_def)
  let ?ts1 = "ts\<lparr>ts_Remaining := 0, ts_Status := TimerFired, ts_LastNotified := now,
                 ts_EscalationLevel := 1\<rparr>"
  have c: "countDown s now ts = (?ts1, [NotifyUrgent (''[Timer] '' @ ts_Label ts @ '' is up.'')], True)"
    using run w due l by (simp add: countDown_def Let_def escalationMessage_def)
  have "Sub now now = 0" by (simp add: Sub_def maxDuration_def minDuration_def)
  then have f: "followUp s now ?ts1 = (?ts1, [], False)"
    using now cool by (simp add: followUp_def IsZero_def)
  show ?thesis by (simp add: superviseTimer_def c f)
qed

lemma superviseTimer_fires_any:
  assumes inv: "timerInv ts" and run: "ts_Status ts = TimerRunning" and ok: "supervisorOK s"
    and now: "0 < now" and due: "ts_Remaining ts - tickInterval s \<le> 0"
  shows "ts_Status (fst (superviseTimer s now ts)) = TimerFired"
    and "ts_Remaining (fst (superviseTimer s now ts)) = 0"
    and "ts_LastNotified (fst (superviseTimer s now ts)) = now"
    and "1 \<le> ts_EscalationLevel (fst (superviseTimer s now ts))"
    and "ts_Label (fst (superviseTimer s now ts)) = ts_Label ts"
    and "filter isUrgent (snd (superviseTimer s now ts))
           = [NotifyUrgent (''[Timer] '' @ ts_Label ts @ '' is up.'')]"
proof -
  from ok have tick: "0 < tickInterval s" "tickInterval s \<le> maxDuration"
    by (simp_all add: supervisorOK_def)
  have w: "wrap64 (ts_Remaining ts - tickInterval s) = ts_Remaining ts - tickInterval s"
    using inv run tick by (rule countDown_no_wrap)
  from inv run have l: "ts_EscalationLevel ts = 0" by (simp add: timerInv_def)
  let ?ts1 = "ts\<lparr>ts_Remaining := 0, ts_Status := TimerFired, ts_LastNotified := now,
                 ts_EscalationLevel := 1\<rparr>"
  have c: "countDown s now ts = (?ts1, [NotifyUrgent (''[Timer] '' @ ts_Label ts @ '' is up.'')], True)"
    using run w due l by (simp add: countDown_def Let_def escalationMessage_def)
  have w2: "wrap64 (1 + 1) = 2" by (simp add: wrap64_def)
  obtain ts2 ns2 c2 where f: "followUp s now ?ts1 = (ts2, ns2, c2)"
    by (cases "followUp s now ?ts1")
  then have p: "ts_Status ts2 = TimerFired" "ts_Remaining ts2 = 0" "ts_LastNotified ts2 = now"
    "1 \<le> ts_EscalationLevel ts2" "ts_Label ts2 = ts_Label ts" "filter isUrgent ns2 = []"
    using w2 by (auto simp: followUp_def split: if_splits)
  have st: "superviseTimer s now ts
              = (ts2, NotifyUrgent (''[Timer] '' @ ts_Label ts @ '' is up.'') # ns2)"
    by (simp add: superviseTimer_def c f)
  show "ts_Status (fst (superviseTimer s now ts)) = TimerFired"
    and "ts_Remaining (fst (superviseTimer s now ts)) = 0"
    and "ts_LastNotified (fst (superviseTimer s now ts)) = now"
    and "1 \<le> ts_EscalationLevel (fst (superviseTimer s now ts))"
    and "ts_Label (fst (superviseTimer s now ts)) = ts_Label ts"
    and "filter isUrgent (snd (superviseTimer s now ts))
           = [NotifyUrgent (''[Timer] '' @ ts_Label ts @ '' is up.'')]"
    using p by (simp_all add: st)
qed

lemma superviseTimer_fired:
  assumes inv: "timerInv ts" and fired: "ts_Status ts = TimerFired" and ok: "supervisorOK s"
  shows "superviseTimer s now ts
      = (if ts_EscalationLevel ts \<le> maxEscalation s
            \<and> notifyCooldown s \<le> now - ts_LastNotified ts
         then (ts\<lparr>ts_LastNotified := now, ts_EscalationLevel := ts_EscalationLevel ts + 1\<rparr>,
               [Notify (escalationMessage ts)])
         else (ts, []))"
proof -
  have c: "countDown s now ts = (ts, [], False)" using fired by (simp add: countDown_def)
  from inv fired have l: "1 \<le> ts_EscalationLevel ts" "ts_LastNotified ts \<noteq> 0"
    by (auto simp: timerInv_def)
  from ok have cd: "minDuration < notifyCooldown s" "notifyCooldown s \<le> maxDuration"
    and mx: "maxEscalation s < 2 ^ 63 - 1"
    by (simp_all add: supervisorOK_def)
  have w: "wrap64 (ts_EscalationLevel ts + 1) = ts_EscalationLevel ts + 1"
    if "ts_EscalationLevel ts \<le> maxEscalation s"
    using that l mx by (intro wrap64_id) auto
  show ?thesis
    using fired l w
    by (auto simp: superviseTimer_def c followUp_def IsZero_def Sub_less_iff [OF cd])
qed


lemma timerTicks_fired:
  assumes "timerInv ts" "ts_Status ts = TimerFired" "supervisorOK s" "\<forall>now \<in> set nows. 0 < now"
  shows "ts_Status (fst (timerTicks s nows ts)) = TimerFired
       \<and> ts_Remaining (fst (timerTicks s nows ts)) = 0
       \<and> ts_Label (fst (timerTicks s nows ts)) = ts_Label ts
       \<and> ts_EscalationLevel ts \<le> ts_EscalationLevel (fst (timerTicks s nows ts))
       \<and> (\<forall>n \<in> set (snd (timerTicks s nows ts)). \<not> isUrgent (snd n))"
  using assms
proof (induction nows arbitrary: ts)
  case Nil
  then show ?case by (simp add: timerInv_def)
next
  case (Cons now nows)
  obtain ts1 ns1 where st: "superviseTimer s now ts = (ts1, ns1)"
    by (cases "superviseTimer s now ts")
  from Cons.prems have now: "0 < now" by simp
  have inv1: "timerInv ts1"
    using timerInv_superviseTimer [OF Cons.prems(1,3) now] st by simp
  have f1: "ts_Status ts1 = TimerFired" "ts_Label ts1 = ts_Label ts"
    "ts_EscalationLevel ts \<le> ts_EscalationLevel ts1" "\<forall>n \<in> set ns1. \<not> isUrgent n"
    using st superviseTimer_fired [OF Cons.prems(1,2,3), of now] Cons.prems(2)
    by (auto split: if_splits)
  have "\<forall>now \<in> set nows. 0 < now" using Cons.prems(4) by simp
  note IH = Cons.IH [OF inv1 f1(1) Cons.prems(3) this]
  obtain ts2 out where r: "timerTicks s nows ts1 = (ts2, out)" by (cases "timerTicks s nows ts1")
  show ?case using IH f1 by (auto simp: st r)
qed

lemma timerTicks_countdown:
  assumes "timerInv ts" "ts_Status ts = TimerRunning" "supervisorOK s"
    "\<forall>now \<in> set nows. 0 < now"
  shows "ts_Remaining (fst (timerTicks s nows ts))
           = max 0 (ts_Remaining ts - int (length nows) * tickInterval s)
       \<and> ts_Label (fst (timerTicks s nows ts)) = ts_Label ts
       \<and> (0 < ts_Remaining ts - int (length nows) * tickInterval s \<longrightarrow>
            ts_Status (fst (timerTicks s nows ts)) = TimerRunning
            \<and> filter isUrgent (map snd (snd (timerTicks s nows ts))) = [])
       \<and> (ts_Remaining ts - int (length nows) * tickInterval s \<le> 0 \<longrightarrow>
            ts_Status (fst (timerTicks s nows ts)) = TimerFired
            \<and> 1 \<le> ts_EscalationLevel (fst (timerTicks s nows ts))
            \<and> filter isUrgent (map snd (snd (timerTicks s nows ts)))
                 = [NotifyUrgent (''[Timer] '' @ ts_Label ts @ '' is up.'')])"
  using assms
proof (induction nows arbitrary: ts)
  case Nil
  then show ?case by (simp add: timerInv_def)
next
  case (Cons now nows)
  from Cons.prems have now: "0 < now" and rest: "\<forall>now \<in> set nows. 0 < now" by simp_all
  from Cons.prems(3) have tick: "0 < tickInterval s" by (simp add: supervisorOK_def)
  have len: "ts_Remaining ts - int (length (now # nows)) * tickInterval s
           = ts_Remaining ts - tickInterval s - int (length nows) * tickInterval s"
    by (simp add: algebra_simps)
  obtain ts1 ns1 where st: "superviseTimer s now ts = (ts1, ns1)"
    by (cases "superviseTimer s now ts")
  have inv1: "timerInv ts1"
    using timerInv_superviseTimer [OF Cons.prems(1,3) now] st by simp
  obtain ts2 out where r: "timerTicks s nows ts1 = (ts2, out)" by (cases "timerTicks s nows ts1")
  show ?case
  proof (cases "0 < ts_Remaining ts - tickInterval s")
    case True
    note sr = superviseTimer_stays_running [OF Cons.prems(1,2,3) True, of now, unfolded st, simplified]
    have u: "filter isUrgent ns1 = []" using sr(4) by (simp add: filter_empty_conv)
    note IH = Cons.IH [OF inv1 sr(1) Cons.prems(3) rest, unfolded r sr(2,3), simplified]
    show ?thesis unfolding len using IH u by (simp add: st r comp_def)
  next
    case False
    then have due: "ts_Remaining ts - tickInterval s \<le> 0" by simp
    note sf = superviseTimer_fires_any [OF Cons.prems(1,2,3) now due, unfolded st, simplified]
    note tf = timerTicks_fired [OF inv1 sf(1) Cons.prems(3) rest, unfolded r, simplified]
    have u: "filter isUrgent (map snd out) = []"
      using tf by (auto simp: filter_empty_conv)
    have "0 \<le> int (length nows) * tickInterval s" using tick by simp
    with due have d: "ts_Remaining ts - tickInterval s - int (length nows) * tickInterval s \<le> 0"
      by linarith
    have l: "1 \<le> ts_EscalationLevel ts2" using tf sf(4) by simp
    show ?thesis unfolding len using d tf u l sf by (simp add: st r comp_def)
  qed
qed

lemma reachable_timerInv:
  assumes "reachable e" "store e sid = Some session" "s_TimerStates session k = Some ts"
  shows "timerInv ts"
  using reachable_sessionInv [OF assms(1,2)] assms(3) by (auto simp: sessionInv_def ran_def)

section \<open>Escalation of a fired timer\<close>

lemma escalationMessage_level:
  "escalationMessage (ts\<lparr>ts_LastNotified := t, ts_EscalationLevel := l\<rparr>)
     = escalationMessage (ts\<lparr>ts_EscalationLevel := l\<rparr>)"
  by (simp add: escalationMessage_def)

lemma timerTicks_capped:
  assumes "timerInv ts" "ts_Status ts = TimerFired" "supervisorOK s"
    "maxEscalation s < ts_EscalationLevel ts"
  shows "timerTicks s nows ts = (ts, [])"
proof (induction nows)
  case Nil
  then show ?case by simp
next
  case (Cons now nows)
  have "superviseTimer s now ts = (ts, [])"
    using superviseTimer_fired [OF assms(1,2,3), of now] assms(4) by simp
  with Cons show ?case by simp
qed

lemma timerTicks_escalations:
  assumes "timerInv ts" "ts_Status ts = TimerFired" "supervisorOK s" "\<forall>now \<in> set nows. 0 < now"
  shows "ts_EscalationLevel (fst (timerTicks s nows ts))
           = ts_EscalationLevel ts + int (length (snd (timerTicks s nows ts)))
       \<and> ts_EscalationLevel (fst (timerTicks s nows ts))
           \<le> max (ts_EscalationLevel ts) (maxEscalation s + 1)
       \<and> map snd (snd (timerTicks s nows ts))
           = map (\<lambda>i. Notify (escalationMessage
                   (ts\<lparr>ts_EscalationLevel := ts_EscalationLevel ts + int i\<rparr>)))
               [0..<length (snd (timerTicks s nows ts))]
       \<and> successively (\<lambda>a b. notifyCooldown s \<le> b - a)
            (ts_LastNotified ts # map fst (snd (timerTicks s nows ts)))"
  using assms
proof (induction nows arbitrary: ts)
  case Nil
  then show ?case by simp
next
  case (Cons now nows)
  from Cons.prems have now: "0 < now" and rest: "\<forall>now \<in> set nows. 0 < now" by simp_all
  note sf = superviseTimer_fired [OF Cons.prems(1,2,3), of now]
  show ?case
  proof (cases "ts_EscalationLevel ts \<le> maxEscalation s
            \<and> notifyCooldown s \<le> now - ts_LastNotified ts")
    case False
    then have st: "superviseTimer s now ts = (ts, [])" using sf by simp
    obtain ts2 out where r: "timerTicks s nows ts = (ts2, out)" by (cases "timerTicks s nows ts")
    from Cons.IH [OF Cons.prems(1,2,3) rest] show ?thesis by (simp add: st r)
  next
    case True
    let ?ts1 = "ts\<lparr>ts_LastNotified := now, ts_EscalationLevel := ts_EscalationLevel ts + 1\<rparr>"
    from True have st: "superviseTimer s now ts = (?ts1, [Notify (escalationMessage ts)])"
      using sf by simp
    have inv1: "timerInv ?ts1"
      using timerInv_superviseTimer [OF Cons.prems(1,3) now] st by simp
    have f1: "ts_Status ?ts1 = TimerFired" using Cons.prems(2) by simp
    obtain ts2 out where r: "timerTicks s nows ?ts1 = (ts2, out)"
      by (cases "timerTicks s nows ?ts1")
    note IH = Cons.IH [OF inv1 f1 Cons.prems(3) rest, unfolded r, simplified]
    have lv: "ts_EscalationLevel ts2 = ts_EscalationLevel ts + int (length ((now, Notify (escalationMessage ts)) # out))"
      using IH by simp
    have bd: "ts_EscalationLevel ts2 \<le> max (ts_EscalationLevel ts) (maxEscalation s + 1)"
      using IH True by auto
    have m0: "escalationMessage ts = escalationMessage (ts\<lparr>ts_EscalationLevel := ts_EscalationLevel ts + int 0\<rparr>)"
      by simp
    have up: "[0..<Suc (length out)] = 0 # map Suc [0..<length out]"
      by (simp add: upt_conv_Cons map_Suc_upt del: upt_Suc)
    have ms: "map snd ((now, Notify (escalationMessage ts)) # out)
           = map (\<lambda>i. Notify (escalationMessage
                   (ts\<lparr>ts_EscalationLevel := ts_EscalationLevel ts + int i\<rparr>)))
               [0..<length ((now, Notify (escalationMessage ts)) # out)]"
    proof -
      have "map snd out = map (\<lambda>i. Notify (escalationMessage
                   (ts\<lparr>ts_EscalationLevel := ts_EscalationLevel ts + int (Suc i)\<rparr>)))
               [0..<length out]"
        using Cons.IH [OF inv1 f1 Cons.prems(3) rest, unfolded r]
        by (simp add: escalationMessage_level algebra_simps)
      then show ?thesis
        apply (simp only: list.map snd_conv length_Cons)
        apply (subst up)
        apply (simp add: comp_def del: upt_Suc)
        done
    qed
    have su: "successively (\<lambda>a b. notifyCooldown s \<le> b - a)
            (ts_LastNotified ts # map fst ((now, Notify (escalationMessage ts)) # out))"
      using IH True by simp
    show ?thesis using lv bd ms su by (simp only: st r timerTicks.simps prod.case fst_conv snd_conv list.map append.simps) 
  qed
qed


lemma timerTicks_append:
  "timerTicks s (as @ bs) ts
     = (case timerTicks s as ts of
          (ts1, out1) \<Rightarrow> (case timerTicks s bs ts1 of (ts2, out2) \<Rightarrow> (ts2, out1 @ out2)))"
proof (induction as arbitrary: ts)
  case Nil
  then show ?case by (simp split: prod.splits)
next
  case (Cons a as)
  then show ?case by (simp split: prod.splits)
qed

lemma regular_quotient:
  fixes m :: nat
  shows "(min 3 (m div 15) \<le> 2 \<and> 15 * min 3 (m div 15) + 15 \<le> Suc m
            \<longrightarrow> min 3 (Suc m div 15) = Suc (min 3 (m div 15))
                \<and> Suc m = 15 * Suc (min 3 (m div 15)))
       \<and> (\<not> (min 3 (m div 15) \<le> 2 \<and> 15 * min 3 (m div 15) + 15 \<le> Suc m)
            \<longrightarrow> min 3 (Suc m div 15) = min 3 (m div 15))"
proof -
  define d where "d = m div 15"
  define r where "r = m mod 15"
  have m: "m = 15 * d + r" and r: "r < 15" by (simp_all add: d_def r_def)
  have s: "Suc m div 15 = (if r = 14 then Suc d else d)"
  proof (cases "r = 14")
    case True
    have "Suc m div 15 = Suc d"
    proof (rule div_nat_eqI)
      show "15 * Suc d \<le> Suc m" using m True by simp
      show "Suc m < 15 * Suc (Suc d)" using m True by simp
    qed
    with True show ?thesis by simp
  next
    case False
    have "Suc m div 15 = d"
    proof (rule div_nat_eqI)
      show "15 * d \<le> Suc m" using m by simp
      show "Suc m < 15 * Suc d" using m r False by simp
    qed
    with False show ?thesis by simp
  qed
  show ?thesis
    unfolding s d_def [symmetric]
  proof (cases "d \<le> 2")
    case True
    then have q: "min 3 d = d" by simp
    have "15 * d + 15 \<le> Suc m \<longleftrightarrow> r = 14" using m r by auto
    then show "(min 3 d \<le> 2 \<and> 15 * min 3 d + 15 \<le> Suc m
            \<longrightarrow> min 3 (if r = 14 then Suc d else d) = Suc (min 3 d)
                \<and> Suc m = 15 * Suc (min 3 d))
       \<and> (\<not> (min 3 d \<le> 2 \<and> 15 * min 3 d + 15 \<le> Suc m)
            \<longrightarrow> min 3 (if r = 14 then Suc d else d) = min 3 d)"
      unfolding q using True m by auto
  next
    case False
    then have q: "min 3 d = 3" by simp
    from False have "min 3 (if r = 14 then Suc d else d) = 3" by simp
    then show "(min 3 d \<le> 2 \<and> 15 * min 3 d + 15 \<le> Suc m
            \<longrightarrow> min 3 (if r = 14 then Suc d else d) = Suc (min 3 d)
                \<and> Suc m = 15 * Suc (min 3 d))
       \<and> (\<not> (min 3 d \<le> 2 \<and> 15 * min 3 d + 15 \<le> Suc m)
            \<longrightarrow> min 3 (if r = 14 then Suc d else d) = min 3 d)"
      unfolding q by simp
  qed
qed

lemma regular_condition:
  fixes m q :: nat
  shows "(1 + int q \<le> maxEscalation defaultSupervisor
          \<and> notifyCooldown defaultSupervisor
              \<le> f + int (Suc m) * Second - (f + 15 * int q * Second))
         \<longleftrightarrow> (q \<le> 2 \<and> 15 * q + 15 \<le> Suc m)"
proof -
  have "f + int (Suc m) * Second - (f + 15 * int q * Second)
          = (int (Suc m) - 15 * int q) * Second"
    by (simp add: algebra_simps)
  moreover have "15 * Second \<le> x * Second \<longleftrightarrow> 15 \<le> x" for x :: int
    by (simp add: Second_def)
  ultimately show ?thesis
    by (simp add: defaultSupervisor_def) linarith
qed


lemma supervisorOK_default: "supervisorOK defaultSupervisor"
  by (simp add: supervisorOK_def defaultSupervisor_def Second_def maxDuration_def minDuration_def)

lemma timerTicks_regular:
  assumes inv: "timerInv ts" and fired: "ts_Status ts = TimerFired"
    and l1: "ts_EscalationLevel ts = 1"
  shows "fst (timerTicks defaultSupervisor
                (map (\<lambda>i. ts_LastNotified ts + int i * Second) [1..<Suc m]) ts)
           = ts\<lparr>ts_LastNotified := ts_LastNotified ts + 15 * int (min 3 (m div 15)) * Second,
                 ts_EscalationLevel := 1 + int (min 3 (m div 15))\<rparr>
       \<and> map fst (snd (timerTicks defaultSupervisor
                (map (\<lambda>i. ts_LastNotified ts + int i * Second) [1..<Suc m]) ts))
           = map (\<lambda>j. ts_LastNotified ts + 15 * int j * Second) [1..<Suc (min 3 (m div 15))]"
proof (induction m)
  case 0
  have "ts\<lparr>ts_LastNotified := ts_LastNotified ts, ts_EscalationLevel := 1\<rparr> = ts"
    using l1 by (cases ts) simp
  then show ?case by simp
next
  case (Suc m)
  let ?f = "ts_LastNotified ts"
  let ?q = "min 3 (m div 15)"
  let ?nows = "map (\<lambda>i. ?f + int i * Second) [1..<Suc m]"
  let ?now = "?f + int (Suc m) * Second"
  let ?tsm = "ts\<lparr>ts_LastNotified := ?f + 15 * int ?q * Second,
                 ts_EscalationLevel := 1 + int ?q\<rparr>"
  obtain tsm out where r: "timerTicks defaultSupervisor ?nows ts = (tsm, out)"
    by (cases "timerTicks defaultSupervisor ?nows ts")
  from Suc.IH have tsm: "tsm = ?tsm"
    and times: "map fst out = map (\<lambda>j. ?f + 15 * int j * Second) [1..<Suc ?q]"
    unfolding r by simp_all
  have f0: "0 < ?f" using inv fired by (simp add: timerInv_def)
  have invm: "timerInv ?tsm" using inv fired f0 by (simp add: timerInv_def Second_def)
  have firedm: "ts_Status ?tsm = TimerFired" using fired by simp
  note sf = superviseTimer_fired [OF invm firedm supervisorOK_default, of ?now]
  have split: "map (\<lambda>i. ?f + int i * Second) [1..<Suc (Suc m)] = ?nows @ [?now]"
    by simp
  note rc = regular_condition [of ?q ?f m]
  note rq = regular_quotient [of m]
  show ?case
  proof (cases "?q \<le> 2 \<and> 15 * ?q + 15 \<le> Suc m")
    case True
    with rq have q': "min 3 (Suc m div 15) = Suc ?q" and sm: "Suc m = 15 * Suc ?q" by simp_all
    have st: "superviseTimer defaultSupervisor ?now ?tsm
        = (?tsm\<lparr>ts_LastNotified := ?now, ts_EscalationLevel := ts_EscalationLevel ?tsm + 1\<rparr>,
           [Notify (escalationMessage ?tsm)])"
      using sf rc True by simp
    have "int (Suc m) = int (15 * Suc ?q)" using sm by (rule arg_cong)
    then have i: "int (Suc m) = 15 * int (Suc ?q)" by (simp only: of_nat_mult of_nat_numeral)
    from i have i': "int m = 14 + 15 * int ?q" by simp
    show ?thesis
      unfolding split timerTicks_append r prod.case tsm q'
      apply (simp only: timerTicks.simps st prod.case fst_conv snd_conv map_append times)
      apply (simp add: i')
      done
  next
    case False
    with rq have q': "min 3 (Suc m div 15) = ?q" by simp
    have st: "superviseTimer defaultSupervisor ?now ?tsm = (?tsm, [])"
      using sf rc False by simp
    show ?thesis
      unfolding split timerTicks_append r prod.case tsm q'
      apply (simp only: timerTicks.simps st prod.case fst_conv snd_conv map_append times)
      apply simp
      done
  qed
qed

lemma timerInv_timerTicks:
  assumes "timerInv ts" "supervisorOK s" "\<forall>now \<in> set nows. 0 < now"
  shows "timerInv (fst (timerTicks s nows ts))"
  using assms
proof (induction nows arbitrary: ts)
  case Nil
  then show ?case by simp
next
  case (Cons now nows)
  obtain ts1 ns1 where st: "superviseTimer s now ts = (ts1, ns1)"
    by (cases "superviseTimer s now ts")
  from Cons.prems have "0 < now" by simp
  from timerInv_superviseTimer [OF Cons.prems(1,2) this] st have "timerInv ts1" by simp
  moreover have "\<forall>now \<in> set nows. 0 < now" using Cons.prems(3) by simp
  ultimately have "timerInv (fst (timerTicks s nows ts1))"
    using Cons.prems(2) by (intro Cons.IH)
  moreover obtain ts2 out where "timerTicks s nows ts1 = (ts2, out)"
    by (cases "timerTicks s nows ts1")
  ultimately show ?case by (simp add: st)
qed

lemma escalation_messages:
  assumes "n \<le> 3"
  shows "map (\<lambda>i. Notify (escalationMessage (ts\<lparr>ts_EscalationLevel := 1 + int i\<rparr>))) [0..<n]
       = take n [Notify (''[Timer] '' @ ts_Label ts @ '' -- check it now.''),
                 Notify (''[Timer] '' @ ts_Label ts @ ''. Now.''),
                 Notify (''[Timer] '' @ ts_Label ts @ ''.'')]"
proof -
  from assms consider "n = 0" | "n = 1" | "n = 2" | "n = 3" by linarith
  then show ?thesis
    by cases (simp_all add: escalationMessage_def upt_rec)
qed

lemma regular_times:
  assumes "ticks \<noteq> []"
    and "\<forall>i < length ticks. fst (ticks ! i) = fst (hd ticks) + int i * Second"
  shows "map fst (tl ticks)
       = map (\<lambda>i. fst (hd ticks) + int i * Second) [1..<Suc (length ticks - 1)]"
proof (rule nth_equalityI)
  show "length (map fst (tl ticks))
      = length (map (\<lambda>i. fst (hd ticks) + int i * Second) [1..<Suc (length ticks - 1)])"
    by (simp del: upt_Suc)
next
  fix i assume "i < length (map fst (tl ticks))"
  then have i: "i < length ticks - 1" by simp
  then have "Suc i < length ticks" by simp
  with assms(2) have "fst (ticks ! Suc i) = fst (hd ticks) + int (Suc i) * Second" by blast
  moreover have "tl ticks ! i = ticks ! Suc i" using i by (simp add: nth_tl)
  ultimately show "map fst (tl ticks) ! i
      = map (\<lambda>i. fst (hd ticks) + int i * Second) [1..<Suc (length ticks - 1)] ! i"
    using i by (simp add: nth_tl del: upt_Suc)
qed


lemma superviseSession_exRunning:
  "superviseSession defaultSupervisor (10 * Second) [''timer-d-1''] [''timer-d-1''] ''s1'' exRunning
     = (exTicked, [])"
  by (simp add: superviseSession_def exRunning_def exRunningSession_def exSession_def
      processSession_def countDown_def followUp_def defaultSupervisor_def exPendingTimer_def
      Let_def wrap64_def Second_def Minute_def IsZero_def Save_def exTicked_def
      exTickedSession_def)

lemma reachable_exTicked: "reachable exTicked"
proof -
  have "(0::int) < 10 * Second" by (simp add: Second_def)
  from r_supervise [OF reachable_exRunning supervisorOK_default this superviseSession_exRunning]
  show ?thesis .
qed

lemma DismissTimer_exRunning:
  "DismissTimer exRunning 300 ''s1'' ''timer-d-1'' = (None, exDismissed)"
  by (simp add: DismissTimer_def exRunning_def exRunningSession_def exSession_def Save_def
      exDismissed_def exDismissedSession_def exDismissedTimer_def)

lemma reachable_exDismissed: "reachable exDismissed"
  using reachable_exRunning DismissTimer_exRunning by (rule r_dismiss)

section \<open>Escalation messages\<close>

text \<open>
  C6 (as amended).  The message for a timer at escalation level L is the template of the
  table with the label substituted: level 0 gives "[Timer] {label} is up.", level 1 gives
  "[Timer] {label} -- check it now." (two ASCII hyphens, not an em dash), level 2 gives
  "[Timer] {label}. Now.", and every level from 3 on gives "[Timer] {label}.".
\<close>

theorem escalationMessage_table:
  "escalationMessage (ts\<lparr>ts_EscalationLevel := 0\<rparr>) = ''[Timer] '' @ ts_Label ts @ '' is up.''
   \<and> escalationMessage (ts\<lparr>ts_EscalationLevel := 1\<rparr>)
       = ''[Timer] '' @ ts_Label ts @ '' -- check it now.''
   \<and> escalationMessage (ts\<lparr>ts_EscalationLevel := 2\<rparr>) = ''[Timer] '' @ ts_Label ts @ ''. Now.''
   \<and> (3 \<le> L \<longrightarrow> escalationMessage (ts\<lparr>ts_EscalationLevel := L\<rparr>) = ''[Timer] '' @ ts_Label ts @ ''.'')"
  by (simp add: escalationMessage_def)

theorem escalationMessage_table_witness:
  "(3::int) \<le> 7
   \<and> escalationMessage (exTimer\<lparr>ts_EscalationLevel := 7\<rparr>) = ''[Timer] Water boiling.''
   \<and> escalationMessage (exTimer\<lparr>ts_EscalationLevel := 1\<rparr>) = ''[Timer] Water boiling -- check it now.''"
  using escalationMessage_table [of exTimer 7] by (simp add: exTimer_def)

text \<open>
  C6 as stated fails at level 1: the message is not the template with an em dash.
\<close>

theorem escalationMessage_level1_counterexample:
  "escalationMessage (exTimer\<lparr>ts_EscalationLevel := 1\<rparr>)
     \<noteq> ''[Timer] '' @ ts_Label exTimer @ '' '' @ emDash @ '' check it now.''"
  by (simp add: escalationMessage_def exTimer_def emDash_def)

section \<open>Advancing a session\<close>




section \<open>Countdown and firing\<close>

text \<open>
  C2.  Take an active session of a reachable state and one of its running timers.  After
  n ticks the remaining time is max(0, initial - n * tickInterval); while it is positive
  the timer is still running and no urgent notification has been sent for it; once it is
  0 the timer is fired, its escalation level is at least 1, and exactly one urgent
  notification has been sent for it, the level-0 message.  On a single tick the remaining
  time goes down by exactly one tick interval; when that reaches 0 or less the timer
  becomes fired with remaining 0 and lastNotified = now, the one urgent notification of
  the tick is the level-0 message, and (the cooldown being positive) the escalation level
  is 1 and nothing else is sent for the timer on that tick.
\<close>

theorem supervisor_countdown_and_fire:
  assumes reach: "reachable e" and stored: "store e sessionID = Some session"
    and active: "s_Status session = SessionActive"
    and timer: "s_TimerStates session k = Some ts" and running: "ts_Status ts = TimerRunning"
    and ok: "supervisorOK s"
    and ticks: "\<forall>(now, keys1, keys2) \<in> set ticks. 0 < now
                  \<and> keysOf (s_TimerStates session) keys1 \<and> keysOf (s_TimerStates session) keys2"
  shows "\<exists>ts'. s_TimerStates (fst (processTicks s ticks session)) k = Some ts'
       \<and> ts_Remaining ts' = max 0 (ts_Remaining ts - int (length ticks) * tickInterval s)
       \<and> (0 < ts_Remaining ts - int (length ticks) * tickInterval s \<longrightarrow>
            ts_Status ts' = TimerRunning
            \<and> filter isUrgent (map snd (notificationsFor k (snd (processTicks s ticks session)))) = [])
       \<and> (ts_Remaining ts - int (length ticks) * tickInterval s \<le> 0 \<longrightarrow>
            ts_Status ts' = TimerFired \<and> 1 \<le> ts_EscalationLevel ts'
            \<and> filter isUrgent (map snd (notificationsFor k (snd (processTicks s ticks session))))
                 = [NotifyUrgent (''[Timer] '' @ ts_Label ts @ '' is up.'')])
       \<and> (\<forall>now keys1 keys2. ticks = [(now, keys1, keys2)] \<longrightarrow>
            (if 0 < ts_Remaining ts - tickInterval s
             then ts_Status ts' = TimerRunning
                  \<and> ts_Remaining ts' = ts_Remaining ts - tickInterval s
             else ts_Status ts' = TimerFired \<and> ts_Remaining ts' = 0
                  \<and> ts_LastNotified ts' = now \<and> 1 \<le> ts_EscalationLevel ts'
                  \<and> (0 < notifyCooldown s \<longrightarrow>
                        ts' = ts\<lparr>ts_Remaining := 0, ts_Status := TimerFired,
                                   ts_LastNotified := now, ts_EscalationLevel := 1\<rparr>
                        \<and> notificationsFor k (snd (processTicks s ticks session))
                             = [(now, NotifyUrgent (''[Timer] '' @ ts_Label ts @ '' is up.''))])))"
proof -
  have inv: "timerInv ts" using reach stored timer by (rule reachable_timerInv)
  from ticks have ks: "\<forall>(now, keys1, keys2) \<in> set ticks.
      keysOf (s_TimerStates session) keys1 \<and> keysOf (s_TimerStates session) keys2"
    and pos: "\<forall>now \<in> set (map fst ticks). 0 < now"
    by auto
  note lift = processTicks_timer [OF active timer ks, of s]
  note cd = timerTicks_countdown [OF inv running ok pos, simplified]
  let ?ts' = "fst (timerTicks s (map fst ticks) ts)"
  have single: "if 0 < ts_Remaining ts - tickInterval s
             then ts_Status ?ts' = TimerRunning
                  \<and> ts_Remaining ?ts' = ts_Remaining ts - tickInterval s
             else ts_Status ?ts' = TimerFired \<and> ts_Remaining ?ts' = 0
                  \<and> ts_LastNotified ?ts' = now \<and> 1 \<le> ts_EscalationLevel ?ts'
                  \<and> (0 < notifyCooldown s \<longrightarrow>
                        ?ts' = ts\<lparr>ts_Remaining := 0, ts_Status := TimerFired,
                                   ts_LastNotified := now, ts_EscalationLevel := 1\<rparr>
                        \<and> snd (timerTicks s (map fst ticks) ts)
                             = [(now, NotifyUrgent (''[Timer] '' @ ts_Label ts @ '' is up.''))])"
    if t: "ticks = [(now, keys1, keys2)]" for now keys1 keys2
  proof (cases "0 < ts_Remaining ts - tickInterval s")
    case True
    obtain ts1 ns1 where st: "superviseTimer s now ts = (ts1, ns1)"
      by (cases "superviseTimer s now ts")
    from superviseTimer_stays_running(1,2) [OF inv running ok True, of now] True
    show ?thesis by (simp add: t st)
  next
    case False
    then have due: "ts_Remaining ts - tickInterval s \<le> 0" by simp
    from ticks t have now: "0 < now" by simp
    obtain ts1 ns1 where st: "superviseTimer s now ts = (ts1, ns1)"
      by (cases "superviseTimer s now ts")
    note any = superviseTimer_fires_any [OF inv running ok now due, unfolded st, simplified]
    have "ts1 = ts\<lparr>ts_Remaining := 0, ts_Status := TimerFired,
                                   ts_LastNotified := now, ts_EscalationLevel := 1\<rparr>
          \<and> ns1 = [NotifyUrgent (''[Timer] '' @ ts_Label ts @ '' is up.'')]"
      if cool: "0 < notifyCooldown s"
      using superviseTimer_fires [OF inv running ok cool now due] st by simp
    with any False show ?thesis by (simp add: t st)
  qed
  have A: "s_TimerStates (fst (processTicks s ticks session)) k = Some ?ts'"
    and N: "notificationsFor k (snd (processTicks s ticks session))
              = snd (timerTicks s (map fst ticks) ts)"
    using lift by simp_all
  show ?thesis
    unfolding N
  proof (intro exI [of _ ?ts'] conjI)
    show "s_TimerStates (fst (processTicks s ticks session)) k = Some ?ts'" by (rule A)
    show "ts_Remaining ?ts' = max 0 (ts_Remaining ts - int (length ticks) * tickInterval s)"
      using cd by simp
    show "0 < ts_Remaining ts - int (length ticks) * tickInterval s \<longrightarrow>
            ts_Status ?ts' = TimerRunning
            \<and> filter isUrgent (map snd (snd (timerTicks s (map fst ticks) ts))) = []"
      using cd by simp
    show "ts_Remaining ts - int (length ticks) * tickInterval s \<le> 0 \<longrightarrow>
            ts_Status ?ts' = TimerFired \<and> 1 \<le> ts_EscalationLevel ?ts'
            \<and> filter isUrgent (map snd (snd (timerTicks s (map fst ticks) ts)))
                 = [NotifyUrgent (''[Timer] '' @ ts_Label ts @ '' is up.'')]"
      using cd by simp
    show "\<forall>now keys1 keys2. ticks = [(now, keys1, keys2)] \<longrightarrow>
            (if 0 < ts_Remaining ts - tickInterval s
             then ts_Status ?ts' = TimerRunning
                  \<and> ts_Remaining ?ts' = ts_Remaining ts - tickInterval s
             else ts_Status ?ts' = TimerFired \<and> ts_Remaining ?ts' = 0
                  \<and> ts_LastNotified ?ts' = now \<and> 1 \<le> ts_EscalationLevel ?ts'
                  \<and> (0 < notifyCooldown s \<longrightarrow>
                        ?ts' = ts\<lparr>ts_Remaining := 0, ts_Status := TimerFired,
                                   ts_LastNotified := now, ts_EscalationLevel := 1\<rparr>
                        \<and> snd (timerTicks s (map fst ticks) ts)
                             = [(now, NotifyUrgent (''[Timer] '' @ ts_Label ts @ '' is up.''))]))"
      using single by blast
  qed
qed

theorem supervisor_countdown_and_fire_witness:
  "reachable exRunning \<and> store exRunning ''s1'' = Some exRunningSession
   \<and> s_Status exRunningSession = SessionActive
   \<and> s_TimerStates exRunningSession ''timer-d-1'' = Some (exPendingTimer\<lparr>ts_Status := TimerRunning\<rparr>)
   \<and> supervisorOK defaultSupervisor
   \<and> list_all (\<lambda>(now, keys1, keys2). 0 < now
          \<and> keysOf (s_TimerStates exRunningSession) keys1
          \<and> keysOf (s_TimerStates exRunningSession) keys2) exTicks
   \<and> map_option ts_Status
        (s_TimerStates (fst (processTicks defaultSupervisor exTicks exRunningSession)) ''timer-d-1'')
        = Some TimerFired
   \<and> map_option ts_Remaining
        (s_TimerStates (fst (processTicks defaultSupervisor exTicks exRunningSession)) ''timer-d-1'')
        = Some 0"
proof -
  have h: "store exRunning ''s1'' = Some exRunningSession"
    "s_Status exRunningSession = SessionActive"
    "s_TimerStates exRunningSession ''timer-d-1'' = Some (exPendingTimer\<lparr>ts_Status := TimerRunning\<rparr>)"
    "ts_Status (exPendingTimer\<lparr>ts_Status := TimerRunning\<rparr>) = TimerRunning"
    by (simp_all add: exRunning_def exRunningSession_def exSession_def)
  note ok = supervisorOK_default
  have d: "dom (s_TimerStates exRunningSession) = {''timer-d-1''}"
    by (auto simp: exRunningSession_def split: if_splits)
  have t: "\<forall>(now, keys1, keys2) \<in> set exTicks. 0 < now
          \<and> keysOf (s_TimerStates exRunningSession) keys1
          \<and> keysOf (s_TimerStates exRunningSession) keys2"
    by (simp add: exTicks_def keysOf_def d Second_def)
  have v: "ts_Remaining (exPendingTimer\<lparr>ts_Status := TimerRunning\<rparr>)
             - int (length exTicks) * tickInterval defaultSupervisor = 0"
    by (simp add: exPendingTimer_def exTicks_def defaultSupervisor_def)
  from supervisor_countdown_and_fire [OF reachable_exRunning h ok t] v
  obtain ts' where
    "s_TimerStates (fst (processTicks defaultSupervisor exTicks exRunningSession)) ''timer-d-1''
       = Some ts'" "ts_Remaining ts' = 0" "ts_Status ts' = TimerFired"
    by auto
  moreover from t have "list_all (\<lambda>(now, keys1, keys2). 0 < now
          \<and> keysOf (s_TimerStates exRunningSession) keys1
          \<and> keysOf (s_TimerStates exRunningSession) keys2) exTicks"
    by (simp add: list_all_iff)
  ultimately show ?thesis using reachable_exRunning h ok by simp
qed

section \<open>Remaining time and timer status\<close>

text \<open>
  C4 (as amended).  In every reachable state, for every timer of every stored session:
  a fired timer has remaining = 0; a timer with remaining = 0 is fired or dismissed;
  0 <= remaining <= duration.  Dismissal changes only the status: a timer dismissed while
  still running keeps the positive remaining time it had, so a dismissed timer need not
  have remaining = 0.
\<close>

theorem remaining_zero_invariant:
  assumes reach: "reachable e" and stored: "store e sessionID = Some session"
    and timer: "s_TimerStates session k = Some ts"
  shows "(ts_Status ts = TimerFired \<longrightarrow> ts_Remaining ts = 0)
       \<and> (ts_Remaining ts = 0 \<longrightarrow> ts_Status ts = TimerFired \<or> ts_Status ts = TimerDismissed)
       \<and> 0 \<le> ts_Remaining ts \<and> ts_Remaining ts \<le> ts_Duration ts
       \<and> (ts_Status ts = TimerRunning \<longrightarrow>
            0 < ts_Remaining ts
            \<and> (\<exists>session'. DismissTimer e now sessionID k = (None, Save e sessionID session')
                  \<and> s_TimerStates session' k = Some (ts\<lparr>ts_Status := TimerDismissed\<rparr>)
                  \<and> ts_Remaining (ts\<lparr>ts_Status := TimerDismissed\<rparr>) = ts_Remaining ts))"
proof -
  have inv: "timerInv ts" using reach stored timer by (rule reachable_timerInv)
  have a: "ts_Status ts = TimerFired \<longrightarrow> ts_Remaining ts = 0"
    using inv by (simp add: timerInv_def)
  have b: "ts_Remaining ts = 0 \<longrightarrow> ts_Status ts = TimerFired \<or> ts_Status ts = TimerDismissed"
    using inv by (cases "ts_Status ts") (auto simp: timerInv_def)
  have c: "0 \<le> ts_Remaining ts" "ts_Remaining ts \<le> ts_Duration ts"
    using inv by (simp_all add: timerInv_def)
  have d: "0 < ts_Remaining ts
            \<and> (\<exists>session'. DismissTimer e now sessionID k = (None, Save e sessionID session')
                  \<and> s_TimerStates session' k = Some (ts\<lparr>ts_Status := TimerDismissed\<rparr>)
                  \<and> ts_Remaining (ts\<lparr>ts_Status := TimerDismissed\<rparr>) = ts_Remaining ts)"
    if run: "ts_Status ts = TimerRunning"
  proof -
    from inv run have "0 < ts_Remaining ts" by (simp add: timerInv_def)
    moreover have "DismissTimer e now sessionID k
        = (None, Save e sessionID (session\<lparr>s_TimerStates :=
              (s_TimerStates session)(k \<mapsto> ts\<lparr>ts_Status := TimerDismissed\<rparr>),
              s_UpdatedAt := now\<rparr>))"
      using stored timer run by (simp add: DismissTimer_def)
    ultimately show ?thesis
      by (intro conjI exI [of _ "session\<lparr>s_TimerStates :=
              (s_TimerStates session)(k \<mapsto> ts\<lparr>ts_Status := TimerDismissed\<rparr>),
              s_UpdatedAt := now\<rparr>"]) simp_all
  qed
  from a b c d show ?thesis by blast
qed

theorem remaining_zero_invariant_witness:
  "reachable exRunning \<and> store exRunning ''s1'' = Some exRunningSession
   \<and> s_TimerStates exRunningSession ''timer-d-1'' = Some (exPendingTimer\<lparr>ts_Status := TimerRunning\<rparr>)
   \<and> ts_Status (exPendingTimer\<lparr>ts_Status := TimerRunning\<rparr>) = TimerRunning
   \<and> 0 < ts_Remaining (exPendingTimer\<lparr>ts_Status := TimerRunning\<rparr>)
   \<and> fst (DismissTimer exRunning 300 ''s1'' ''timer-d-1'') = None"
proof -
  have h: "store exRunning ''s1'' = Some exRunningSession"
    "s_TimerStates exRunningSession ''timer-d-1'' = Some (exPendingTimer\<lparr>ts_Status := TimerRunning\<rparr>)"
    by (simp_all add: exRunning_def exRunningSession_def)
  have r: "ts_Status (exPendingTimer\<lparr>ts_Status := TimerRunning\<rparr>) = TimerRunning" by simp
  from remaining_zero_invariant [OF reachable_exRunning h, of 300] r
  have "0 < ts_Remaining (exPendingTimer\<lparr>ts_Status := TimerRunning\<rparr>)"
    "fst (DismissTimer exRunning 300 ''s1'' ''timer-d-1'') = None"
    by auto
  with reachable_exRunning h r show ?thesis by simp
qed

text \<open>
  C4 as stated fails: dismissing the running timer of the demo session leaves a dismissed
  timer whose remaining time is two seconds.
\<close>

theorem dismissed_timer_remaining_counterexample:
  "reachable exDismissed
   \<and> store exDismissed ''s1'' = Some exDismissedSession
   \<and> s_TimerStates exDismissedSession ''timer-d-1'' = Some exDismissedTimer
   \<and> ts_Status exDismissedTimer = TimerDismissed
   \<and> ts_Remaining exDismissedTimer = 2 * Second
   \<and> \<not> (ts_Remaining exDismissedTimer = 0 \<longleftrightarrow>
          ts_Status exDismissedTimer = TimerFired \<or> ts_Status exDismissedTimer = TimerDismissed)"
  using reachable_exDismissed
  by (simp add: exDismissed_def exDismissedSession_def exDismissedTimer_def exPendingTimer_def
      Second_def)

section \<open>Pause followed by Resume\<close>

text \<open>
  C3.  On an active session of a reachable state, Pause succeeds and sets the session
  paused, turning exactly the running timers to paused and leaving every other timer and
  every remaining time as they were; Resume then succeeds and sets the session active,
  turning exactly the paused timers back to running; after the two operations every timer
  is exactly as it was before the pause.
\<close>

theorem Pause_Resume_restores_timers:
  assumes reach: "reachable e" and stored: "store e sessionID = Some session"
    and active: "s_Status session = SessionActive"
  shows "\<exists>paused resumed e1 e2.
           Pause e t1 sessionID = (None, e1) \<and> store e1 sessionID = Some paused
         \<and> s_Status paused = SessionPaused
         \<and> (\<forall>tid. s_TimerStates paused tid = map_option
               (\<lambda>ts. if ts_Status ts = TimerRunning then ts\<lparr>ts_Status := TimerPaused\<rparr> else ts)
               (s_TimerStates session tid))
         \<and> Resume e1 t2 sessionID = (Inr resumed, e2) \<and> store e2 sessionID = Some resumed
         \<and> s_Status resumed = SessionActive
         \<and> (\<forall>tid. s_TimerStates resumed tid = map_option
               (\<lambda>ts. if ts_Status ts = TimerPaused then ts\<lparr>ts_Status := TimerRunning\<rparr> else ts)
               (s_TimerStates paused tid))
         \<and> (\<forall>tid. map_option ts_Remaining (s_TimerStates paused tid)
                     = map_option ts_Remaining (s_TimerStates session tid)
                \<and> map_option ts_Remaining (s_TimerStates resumed tid)
                     = map_option ts_Remaining (s_TimerStates session tid))
         \<and> s_TimerStates resumed = s_TimerStates session"
proof -
  let ?paused = "session\<lparr>s_Status := SessionPaused, s_UpdatedAt := t1,
                    s_TimerStates := map_option pauseTimer \<circ> s_TimerStates session\<rparr>"
  let ?resumed = "?paused\<lparr>s_Status := SessionActive, s_UpdatedAt := t2,
                    s_TimerStates := map_option resumeTimer \<circ> s_TimerStates ?paused\<rparr>"
  have p: "Pause e t1 sessionID = (None, Save e sessionID ?paused)"
    using stored active by (simp add: Pause_def)
  have r: "Resume (Save e sessionID ?paused) t2 sessionID
             = (Inr ?resumed, Save (Save e sessionID ?paused) sessionID ?resumed)"
    by (simp add: Resume_def Save_lookup Let_def)
  have np: "ts_Status ts \<noteq> TimerPaused" if "s_TimerStates session tid = Some ts" for tid ts
    using reachable_sessionInv [OF reach stored] active that
    by (auto simp: sessionInv_def ran_def)
  have same: "s_TimerStates ?resumed = s_TimerStates session"
  proof (rule ext)
    fix tid
    show "s_TimerStates ?resumed tid = s_TimerStates session tid"
      by (cases "s_TimerStates session tid") (simp_all add: resume_pause_timer np)
  qed
  have t1: "s_TimerStates ?paused tid = map_option
               (\<lambda>ts. if ts_Status ts = TimerRunning then ts\<lparr>ts_Status := TimerPaused\<rparr> else ts)
               (s_TimerStates session tid)" for tid
    by (cases "s_TimerStates session tid") (simp_all add: pauseTimer_def)
  have t2: "s_TimerStates ?resumed tid = map_option
               (\<lambda>ts. if ts_Status ts = TimerPaused then ts\<lparr>ts_Status := TimerRunning\<rparr> else ts)
               (s_TimerStates ?paused tid)" for tid
    by (cases "s_TimerStates session tid") (simp_all add: resumeTimer_def)
  have rem1: "map_option ts_Remaining (s_TimerStates ?paused tid)
                = map_option ts_Remaining (s_TimerStates session tid)" for tid
    by (cases "s_TimerStates session tid") (simp_all add: pauseTimer_def)
  have rem2: "map_option ts_Remaining (s_TimerStates ?resumed tid)
                = map_option ts_Remaining (s_TimerStates session tid)" for tid
    unfolding same ..
  show ?thesis
    apply (rule exI [of _ ?paused], rule exI [of _ ?resumed])
    apply (rule exI [of _ "Save e sessionID ?paused"])
    apply (rule exI [of _ "Save (Save e sessionID ?paused) sessionID ?resumed"])
    apply (intro conjI allI)
              apply (rule p)
             apply (rule Save_lookup)
            apply simp
           apply (rule t1)
          apply (rule r)
         apply (rule Save_lookup)
        apply simp
       apply (rule t2)
      apply (rule rem1)
     apply (rule rem2)
    apply (rule same)
    done
qed

theorem Pause_Resume_restores_timers_witness:
  "reachable exRunning \<and> store exRunning ''s1'' = Some exRunningSession
   \<and> s_Status exRunningSession = SessionActive
   \<and> Pause exRunning 250 ''s1'' = (None, exPaused)
   \<and> map_option s_TimerStates (store (snd (Resume exPaused 300 ''s1'')) ''s1'')
        = Some (s_TimerStates exRunningSession)"
proof -
  have h: "store exRunning ''s1'' = Some exRunningSession"
    "s_Status exRunningSession = SessionActive"
    by (simp_all add: exRunning_def exRunningSession_def exSession_def)
  from Pause_Resume_restores_timers [OF reachable_exRunning h, of 250 300]
  obtain paused resumed e1 e2 where
    a: "Pause exRunning 250 ''s1'' = (None, e1)" "store e1 ''s1'' = Some paused"
       "Resume e1 300 ''s1'' = (Inr resumed, e2)" "store e2 ''s1'' = Some resumed"
       "s_TimerStates resumed = s_TimerStates exRunningSession"
    by blast
  from a(1) have "e1 = exPaused" by (simp add: Pause_exRunning)
  with a reachable_exRunning h Pause_exRunning show ?thesis by simp
qed

section \<open>The escalation cap\<close>

text \<open>
  C5.  Default settings (tick 1 s, cooldown 15 s, maxEscalation 3).  Take a running timer of
  an active session in a reachable state that is due at the next tick, and any run of
  ticks.  The notifications sent for the timer are at most 4; they are, in order, the
  urgent level-0 message of the firing tick and then the messages of levels 1, 2 and 3;
  consecutive ones are at least 15 s apart; the escalation level equals their number.
  When the ticks are exactly one second apart their number after n ticks is
  min(4, 1 + (n - 1) div 15), so it is exactly 4 from the 46th tick on (in particular after
  60 s).  Once 4 have been sent (the level, 4, exceeds maxEscalation) no further run of
  ticks sends a notification for the timer.
\<close>

theorem escalation_capped_at_four:
  assumes reach: "reachable e" and stored: "store e sessionID = Some session"
    and active: "s_Status session = SessionActive"
    and timer: "s_TimerStates session k = Some ts" and running: "ts_Status ts = TimerRunning"
    and due: "ts_Remaining ts \<le> tickInterval defaultSupervisor"
    and ticks: "\<forall>(now, keys1, keys2) \<in> set ticks. 0 < now
                  \<and> keysOf (s_TimerStates session) keys1 \<and> keysOf (s_TimerStates session) keys2"
    and ne: "ticks \<noteq> []"
  shows "let session' = fst (processTicks defaultSupervisor ticks session);
             ns = notificationsFor k (snd (processTicks defaultSupervisor ticks session))
         in \<exists>ts'. s_TimerStates session' k = Some ts'
            \<and> ts_Status ts' = TimerFired
            \<and> length ns \<le> 4
            \<and> ts_EscalationLevel ts' = int (length ns)
            \<and> map snd ns = take (length ns)
                 [NotifyUrgent (''[Timer] '' @ ts_Label ts @ '' is up.''),
                  Notify (''[Timer] '' @ ts_Label ts @ '' -- check it now.''),
                  Notify (''[Timer] '' @ ts_Label ts @ ''. Now.''),
                  Notify (''[Timer] '' @ ts_Label ts @ ''.'')]
            \<and> successively (\<lambda>a b. 15 * Second \<le> b - a) (map fst ns)
            \<and> ((\<forall>i < length ticks. fst (ticks ! i) = fst (hd ticks) + int i * Second) \<longrightarrow>
                  length ns = min 4 (1 + (length ticks - 1) div 15))
            \<and> (length ns = 4 \<longrightarrow>
                  (\<forall>more. (\<forall>(now, keys1, keys2) \<in> set more. 0 < now
                              \<and> keysOf (s_TimerStates session') keys1
                              \<and> keysOf (s_TimerStates session') keys2) \<longrightarrow>
                     notificationsFor k (snd (processTicks defaultSupervisor more session')) = []))"
proof -
  let ?s = defaultSupervisor
  let ?m0 = "''[Timer] '' @ ts_Label ts @ '' is up.''"
  have inv: "timerInv ts" using reach stored timer by (rule reachable_timerInv)
  note ok = supervisorOK_default
  have cool: "0 < notifyCooldown ?s" "notifyCooldown ?s = 15 * Second" "maxEscalation ?s = 3"
    by (simp_all add: defaultSupervisor_def Second_def)
  from ticks have ks: "\<forall>(now, keys1, keys2) \<in> set ticks.
      keysOf (s_TimerStates session) keys1 \<and> keysOf (s_TimerStates session) keys2"
    and pos: "\<forall>now \<in> set (map fst ticks). 0 < now"
    by auto
  obtain now0 rest where nows: "map fst ticks = now0 # rest"
    and hd0: "fst (hd ticks) = now0" "map fst (tl ticks) = rest"
    using ne by (cases ticks) auto
  from pos nows have now0: "0 < now0" and restpos: "\<forall>now \<in> set rest. 0 < now" by simp_all
  let ?ts1 = "ts\<lparr>ts_Remaining := 0, ts_Status := TimerFired, ts_LastNotified := now0,
                 ts_EscalationLevel := 1\<rparr>"
  from due have due': "ts_Remaining ts - tickInterval ?s \<le> 0" by simp
  have st: "superviseTimer ?s now0 ts = (?ts1, [NotifyUrgent ?m0])"
    using inv running ok cool(1) now0 due' by (rule superviseTimer_fires)
  have inv1: "timerInv ?ts1"
    using timerInv_superviseTimer [OF inv ok now0] st by simp
  have f1: "ts_Status ?ts1 = TimerFired" by simp
  obtain ts2 out where r: "timerTicks ?s rest ?ts1 = (ts2, out)"
    by (cases "timerTicks ?s rest ?ts1")
  have tt: "timerTicks ?s (map fst ticks) ts = (ts2, (now0, NotifyUrgent ?m0) # out)"
    by (simp add: nows st r)
  note esc = timerTicks_escalations [OF inv1 f1 ok restpos, unfolded r cool, simplified]
  from esc have lv: "ts_EscalationLevel ts2 = 1 + int (length out)"
    and bd: "length out \<le> 3"
    and ms: "map snd out = map (\<lambda>i. Notify (escalationMessage
                (?ts1\<lparr>ts_EscalationLevel := 1 + int i\<rparr>))) [0..<length out]"
    and su: "successively (\<lambda>a b. 15 * Second \<le> b - a) (now0 # map fst out)"
    by simp_all
  have fired2: "ts_Status ts2 = TimerFired"
    using timerTicks_fired [OF inv1 f1 ok restpos] r by simp
  have inv2: "timerInv ts2"
    using timerInv_timerTicks [OF inv1 ok restpos] r by simp
  note lift = processTicks_timer [OF active timer ks, of ?s, unfolded tt, simplified]
  let ?session' = "fst (processTicks ?s ticks session)"
  let ?ns = "notificationsFor k (snd (processTicks ?s ticks session))"
  have A: "s_TimerStates ?session' k = Some ts2" and N: "?ns = (now0, NotifyUrgent ?m0) # out"
    and act': "s_Status ?session' = SessionActive"
    using lift by simp_all
  have msgs: "map snd ?ns = take (length ?ns)
                 [NotifyUrgent ?m0,
                  Notify (''[Timer] '' @ ts_Label ts @ '' -- check it now.''),
                  Notify (''[Timer] '' @ ts_Label ts @ ''. Now.''),
                  Notify (''[Timer] '' @ ts_Label ts @ ''.'')]"
    unfolding N using ms escalation_messages [OF bd, of ?ts1] by simp
  have regular: "length ?ns = min 4 (1 + (length ticks - 1) div 15)"
    if reg: "\<forall>i < length ticks. fst (ticks ! i) = fst (hd ticks) + int i * Second"
  proof -
    have "rest = map (\<lambda>i. ts_LastNotified ?ts1 + int i * Second) [1..<Suc (length ticks - 1)]"
      using regular_times [OF ne reg] hd0 by simp
    with timerTicks_regular [OF inv1 f1, of "length ticks - 1"] r
    have "map fst out = map (\<lambda>j. ts_LastNotified ?ts1 + 15 * int j * Second)
                           [1..<Suc (min 3 ((length ticks - 1) div 15))]"
      by simp
    then have "length (map fst out) = length (map (\<lambda>j. ts_LastNotified ?ts1 + 15 * int j * Second)
                           [1..<Suc (min 3 ((length ticks - 1) div 15))])"
      by (rule arg_cong)
    then have "length out = min 3 ((length ticks - 1) div 15)" by (simp del: upt_Suc)
    then show ?thesis unfolding N by simp
  qed
  have capped: "notificationsFor k (snd (processTicks ?s more ?session')) = []"
    if four: "length ?ns = 4"
      and more: "\<forall>(now, keys1, keys2) \<in> set more. 0 < now
                              \<and> keysOf (s_TimerStates ?session') keys1
                              \<and> keysOf (s_TimerStates ?session') keys2" for more
  proof -
    from four N lv have "maxEscalation ?s < ts_EscalationLevel ts2" by (simp add: cool)
    from timerTicks_capped [OF inv2 fired2 ok this]
    have c: "timerTicks ?s (map fst more) ts2 = (ts2, [])" .
    from more have ks': "\<forall>(now, keys1, keys2) \<in> set more.
        keysOf (s_TimerStates ?session') keys1 \<and> keysOf (s_TimerStates ?session') keys2"
      by auto
    from processTicks_timer [OF act' A ks', of ?s] c show ?thesis by simp
  qed
  show ?thesis
    unfolding Let_def
  proof (intro exI [of _ ts2] conjI)
    show "s_TimerStates ?session' k = Some ts2" by (rule A)
    show "ts_Status ts2 = TimerFired" by (rule fired2)
    show "length ?ns \<le> 4" unfolding N using bd by simp
    show "ts_EscalationLevel ts2 = int (length ?ns)" unfolding N using lv by simp
    show "map snd ?ns = take (length ?ns)
                 [NotifyUrgent ?m0,
                  Notify (''[Timer] '' @ ts_Label ts @ '' -- check it now.''),
                  Notify (''[Timer] '' @ ts_Label ts @ ''. Now.''),
                  Notify (''[Timer] '' @ ts_Label ts @ ''.'')]"
      by (rule msgs)
    show "successively (\<lambda>a b. 15 * Second \<le> b - a) (map fst ?ns)"
      unfolding N using su by simp
    show "(\<forall>i < length ticks. fst (ticks ! i) = fst (hd ticks) + int i * Second) \<longrightarrow>
                  length ?ns = min 4 (1 + (length ticks - 1) div 15)"
      using regular by blast
    show "length ?ns = 4 \<longrightarrow>
                  (\<forall>more. (\<forall>(now, keys1, keys2) \<in> set more. 0 < now
                              \<and> keysOf (s_TimerStates ?session') keys1
                              \<and> keysOf (s_TimerStates ?session') keys2) \<longrightarrow>
                     notificationsFor k (snd (processTicks ?s more ?session')) = [])"
      using capped by blast
  qed
qed

theorem escalation_capped_at_four_witness:
  "reachable exTicked \<and> store exTicked ''s1'' = Some exTickedSession
   \<and> s_Status exTickedSession = SessionActive
   \<and> map_option ts_Status (s_TimerStates exTickedSession ''timer-d-1'') = Some TimerRunning
   \<and> map_option ts_Remaining (s_TimerStates exTickedSession ''timer-d-1'')
        = Some (tickInterval defaultSupervisor)
   \<and> exTicks60 \<noteq> []
   \<and> length (notificationsFor ''timer-d-1''
               (snd (processTicks defaultSupervisor exTicks60 exTickedSession))) = 4"
proof -
  let ?ts = "exPendingTimer\<lparr>ts_Status := TimerRunning, ts_Remaining := 1 * Second\<rparr>"
  have h: "store exTicked ''s1'' = Some exTickedSession"
    "s_Status exTickedSession = SessionActive"
    "s_TimerStates exTickedSession ''timer-d-1'' = Some ?ts"
    "ts_Status ?ts = TimerRunning"
    "ts_Remaining ?ts \<le> tickInterval defaultSupervisor"
    by (simp_all add: exTicked_def exTickedSession_def exRunningSession_def exSession_def
        defaultSupervisor_def)
  have d: "dom (s_TimerStates exTickedSession) = {''timer-d-1''}"
    by (auto simp: exTickedSession_def split: if_splits)
  have t: "\<forall>(now, keys1, keys2) \<in> set exTicks60. 0 < now
          \<and> keysOf (s_TimerStates exTickedSession) keys1
          \<and> keysOf (s_TimerStates exTickedSession) keys2"
    by (auto simp: exTicks60_def keysOf_def d Second_def)
  have ne: "exTicks60 \<noteq> []" by (simp add: exTicks60_def)
  have len: "length exTicks60 = 60" by (simp add: exTicks60_def)
  have hd: "fst (hd exTicks60) = 11 * Second"
    by (simp add: exTicks60_def hd_map upt_rec)
  have reg: "\<forall>i < length exTicks60. fst (exTicks60 ! i) = fst (hd exTicks60) + int i * Second"
    unfolding hd by (simp add: exTicks60_def)
  have v: "ts_Remaining ?ts = tickInterval defaultSupervisor"
    by (simp add: defaultSupervisor_def)
  from escalation_capped_at_four [OF reachable_exTicked h t ne] reg
  have "length (notificationsFor ''timer-d-1''
               (snd (processTicks defaultSupervisor exTicks60 exTickedSession)))
          = min 4 (1 + (length exTicks60 - 1) div 15)"
    unfolding Let_def by blast
  then have "length (notificationsFor ''timer-d-1''
               (snd (processTicks defaultSupervisor exTicks60 exTickedSession))) = 4"
    unfolding len by simp
  with reachable_exTicked h ne v show ?thesis by simp
qed

section \<open>The speech queue\<close>

lemma bestIndex_scan:
  assumes "n \<le> length q" "q \<noteq> []"
  shows "let b = fold (\<lambda>i bestIdx. if Priority (q ! i) > Priority (q ! bestIdx) then i else bestIdx)
                   [0..<n] 0
         in b < length q \<and> (b < n \<or> b = 0)
            \<and> (\<forall>i<n. Priority (q ! i) \<le> Priority (q ! b))
            \<and> (\<forall>i<b. Priority (q ! i) < Priority (q ! b))"
  using assms(1)
proof (induction n)
  case 0
  then show ?case using assms(2) by simp
next
  case (Suc n)
  let ?f = "\<lambda>i bestIdx. if Priority (q ! i) > Priority (q ! bestIdx) then i else bestIdx"
  let ?b = "fold ?f [0..<n] 0"
  from Suc have IH: "?b < length q" "?b < n \<or> ?b = 0"
    "\<forall>i<n. Priority (q ! i) \<le> Priority (q ! ?b)"
    "\<forall>i<?b. Priority (q ! i) < Priority (q ! ?b)"
    by (simp_all add: Let_def)
  have step: "fold ?f [0..<Suc n] 0 = ?f n ?b" by simp
  show ?case
  proof (cases "Priority (q ! n) > Priority (q ! ?b)")
    case True
    then have b: "fold ?f [0..<Suc n] 0 = n" unfolding step by simp
    have "\<forall>i<Suc n. Priority (q ! i) \<le> Priority (q ! n)"
      using IH(3) True by (auto simp: less_Suc_eq)
    moreover have "\<forall>i<n. Priority (q ! i) < Priority (q ! n)"
    proof (intro allI impI)
      fix i assume "i < n"
      with IH(3) have "Priority (q ! i) \<le> Priority (q ! ?b)" by simp
      with True show "Priority (q ! i) < Priority (q ! n)" by simp
    qed
    ultimately show ?thesis unfolding Let_def b using Suc.prems by simp
  next
    case False
    then have b: "fold ?f [0..<Suc n] 0 = ?b" unfolding step by simp
    have "\<forall>i<Suc n. Priority (q ! i) \<le> Priority (q ! ?b)"
      using IH(3) False by (auto simp: less_Suc_eq)
    then show ?thesis unfolding Let_def b using IH by auto
  qed
qed

lemma bestIndex_props:
  assumes "q \<noteq> []"
  shows "bestIndex q < length q"
    and "\<forall>i<length q. Priority (q ! i) \<le> Priority (q ! bestIndex q)"
    and "\<forall>i<bestIndex q. Priority (q ! i) < Priority (q ! bestIndex q)"
  using bestIndex_scan [OF le_refl assms] by (simp_all add: bestIndex_def Let_def)

lemma dequeue_Some:
  assumes "q \<noteq> []"
  shows "dequeue q = Some (q ! bestIndex q, take (bestIndex q) q @ drop (Suc (bestIndex q)) q)"
  using assms by (simp add: dequeue_def Let_def)

lemma dequeue_split:
  assumes "dequeue q = Some (item, rest)"
  shows "\<exists>pre post. q = pre @ item # post \<and> rest = pre @ post
           \<and> (\<forall>x \<in> set pre. Priority x < Priority item)
           \<and> (\<forall>x \<in> set post. Priority x \<le> Priority item)"
proof -
  from assms have ne: "q \<noteq> []" by (auto simp: dequeue_def)
  let ?b = "bestIndex q"
  note bp = bestIndex_props [OF ne]
  from assms dequeue_Some [OF ne] have ir: "item = q ! ?b" "rest = take ?b q @ drop (Suc ?b) q"
    by simp_all
  have q: "q = take ?b q @ item # drop (Suc ?b) q"
    unfolding ir using bp(1) by (rule id_take_nth_drop)
  have f: "\<forall>x \<in> set (take ?b q). Priority x < Priority item"
  proof
    fix x assume "x \<in> set (take ?b q)"
    then obtain i where "i < ?b" "x = q ! i" using bp(1)
      by (auto simp: in_set_conv_nth)
    with bp(3) ir show "Priority x < Priority item" by simp
  qed
  have b: "\<forall>x \<in> set (drop (Suc ?b) q). Priority x \<le> Priority item"
  proof
    fix x assume "x \<in> set (drop (Suc ?b) q)"
    then have "x \<in> set q" by (rule in_set_dropD)
    then obtain i where "i < length q" "x = q ! i" by (auto simp: in_set_conv_nth)
    with bp(2) ir show "Priority x \<le> Priority item" by simp
  qed
  from q ir f b show ?thesis by blast
qed

lemma queueReachable_sorted:
  "queueReachable t q \<Longrightarrow> sorted (map QueuedAt q) \<and> (\<forall>x \<in> set q. QueuedAt x \<le> t)"
proof (induction rule: queueReachable.induct)
  case (qr_new t)
  then show ?case by simp
next
  case (qr_say t queue now msg priority)
  then have "sorted (map QueuedAt (flushLowLocked queue))"
    unfolding flushLowLocked_def by (simp add: sorted_filter)
  with qr_say show ?case
    by (auto simp: Say_def sorted_append flushLowLocked_def)
next
  case (qr_interrupt t queue)
  then show ?case by (simp add: Interrupt_def)
next
  case (qr_dequeue t queue item rest)
  from dequeue_split [OF qr_dequeue(2)] obtain pre post where
    s: "queue = pre @ item # post" "rest = pre @ post" by blast
  with qr_dequeue.IH show ?case by (auto simp: sorted_append)
qed

lemma drainOrder_Nil: "drainOrder [] = []"
  by (simp add: drainOrder.simps dequeue_def)

lemma drainOrder_step:
  "dequeue q = Some (item, rest) \<Longrightarrow> drainOrder q = item # drainOrder rest"
  by (subst drainOrder.simps) simp

lemma drainOrder_props:
  "mset (drainOrder q) = mset q
   \<and> sorted_wrt (\<lambda>a b. Priority a \<ge> Priority b) (drainOrder q)
   \<and> (\<forall>p. filter (\<lambda>r. Priority r = p) (drainOrder q) = filter (\<lambda>r. Priority r = p) q)"
proof (induction q rule: length_induct)
  case (1 q)
  show ?case
  proof (cases "q = []")
    case True
    then show ?thesis by (simp add: drainOrder_Nil)
  next
    case False
    then obtain item rest where d: "dequeue q = Some (item, rest)"
      using dequeue_Some by blast
    from dequeue_split [OF d] obtain pre post where
      s: "q = pre @ item # post" "rest = pre @ post"
         "\<forall>x \<in> set pre. Priority x < Priority item"
         "\<forall>x \<in> set post. Priority x \<le> Priority item" by blast
    from s have "length rest < length q" by simp
    with 1 have "mset (drainOrder rest) = mset rest
       \<and> sorted_wrt (\<lambda>a b. Priority a \<ge> Priority b) (drainOrder rest)
       \<and> (\<forall>p. filter (\<lambda>r. Priority r = p) (drainOrder rest) = filter (\<lambda>r. Priority r = p) rest)"
      by simp
    then have IH: "mset (drainOrder rest) = mset rest"
      "sorted_wrt (\<lambda>a b. Priority a \<ge> Priority b) (drainOrder rest)"
      "\<And>p. filter (\<lambda>r. Priority r = p) (drainOrder rest) = filter (\<lambda>r. Priority r = p) rest"
      by simp_all
    have eq: "drainOrder q = item # drainOrder rest" using d by (rule drainOrder_step)
    have m: "mset (drainOrder q) = mset q" unfolding eq using IH(1) s by simp
    have "set (drainOrder rest) = set rest" using IH(1) by (rule mset_eq_setD)
    then have "\<forall>y \<in> set (drainOrder rest). Priority y \<le> Priority item"
      using s by auto
    then have so: "sorted_wrt (\<lambda>a b. Priority a \<ge> Priority b) (drainOrder q)"
      unfolding eq using IH(2) by simp
    have fi: "filter (\<lambda>r. Priority r = p) (drainOrder q) = filter (\<lambda>r. Priority r = p) q" for p
    proof (cases "Priority item = p")
      case True
      with s(3) have "filter (\<lambda>r. Priority r = p) pre = []"
        by (auto simp: filter_empty_conv)
      then show ?thesis unfolding eq using True IH(3) [of p] s by simp
    next
      case False
      then show ?thesis unfolding eq using IH(3) [of p] s by simp
    qed
    from m so fi show ?thesis by blast
  qed
qed

text \<open>
  C7.  Whenever the worker dequeues from a non-empty queue, the request it takes has
  maximal priority among the queued ones and, among those of that priority, the earliest
  queuedAt; the rest of the queue keeps its order.  Hence a queue that is drained without
  new arrivals is spoken in descending priority, and within each priority level in the
  order of queuing (first in, first out).
\<close>

theorem dequeue_highest_priority_fifo:
  assumes reach: "queueReachable t queue" and ne: "queue \<noteq> []"
  shows "\<exists>item rest. dequeue queue = Some (item, rest)
         \<and> item \<in> set queue
         \<and> mset queue = add_mset item (mset rest)
         \<and> (\<forall>x \<in> set queue. Priority x \<le> Priority item)
         \<and> (\<forall>x \<in> set queue. Priority x = Priority item \<longrightarrow> QueuedAt item \<le> QueuedAt x)
         \<and> mset (drainOrder queue) = mset queue
         \<and> sorted_wrt (\<lambda>a b. Priority a \<ge> Priority b) (drainOrder queue)
         \<and> (\<forall>p. filter (\<lambda>r. Priority r = p) (drainOrder queue)
                   = filter (\<lambda>r. Priority r = p) queue)
         \<and> (\<forall>p. sorted (map QueuedAt (filter (\<lambda>r. Priority r = p) (drainOrder queue))))"
proof -
  from ne obtain item rest where d: "dequeue queue = Some (item, rest)"
    using dequeue_Some by blast
  from dequeue_split [OF d] obtain pre post where
    s: "queue = pre @ item # post" "rest = pre @ post"
       "\<forall>x \<in> set pre. Priority x < Priority item"
       "\<forall>x \<in> set post. Priority x \<le> Priority item" by blast
  from queueReachable_sorted [OF reach] have so: "sorted (map QueuedAt queue)" by simp
  have a: "item \<in> set queue" "mset queue = add_mset item (mset rest)" using s by simp_all
  have b: "\<forall>x \<in> set queue. Priority x \<le> Priority item" using s by auto
  have c: "\<forall>x \<in> set queue. Priority x = Priority item \<longrightarrow> QueuedAt item \<le> QueuedAt x"
    using s so by (auto simp: sorted_append)
  note dp = drainOrder_props [of queue]
  have e: "sorted (map QueuedAt (filter (\<lambda>r. Priority r = p) (drainOrder queue)))" for p
  proof -
    have "sorted (map QueuedAt (filter (\<lambda>r. Priority r = p) queue))"
      using so by (rule sorted_filter)
    with dp show ?thesis by simp
  qed
  from d a b c dp e show ?thesis by blast
qed

lemma exQueue_eq:
  "exQueue = [\<lparr>Text = ''b'', Priority = 1, QueuedAt = 10\<rparr>,
              \<lparr>Text = ''c'', Priority = 2, QueuedAt = 20\<rparr>,
              \<lparr>Text = ''d'', Priority = 2, QueuedAt = 30\<rparr>,
              \<lparr>Text = ''a'', Priority = 0, QueuedAt = 40\<rparr>]"
  by (simp add: exQueue_def Say_def flushLowLocked_def PriorityLow_def PriorityNormal_def
      PriorityHigh_def)

lemma drainOrder_exQueue: "map Text (drainOrder exQueue) = [''c'', ''d'', ''b'', ''a'']"
  unfolding exQueue_eq
  by (simp add: drainOrder.simps dequeue_def bestIndex_def upt_rec)

theorem dequeue_highest_priority_fifo_witness:
  "queueReachable 40 exQueue \<and> exQueue \<noteq> []
   \<and> map_option (Text \<circ> fst) (dequeue exQueue) = Some ''c''
   \<and> map Text (drainOrder exQueue) = [''c'', ''d'', ''b'', ''a'']
   \<and> sorted_wrt (\<lambda>a b. Priority a \<ge> Priority b) (drainOrder exQueue)"
proof -
  have r: "queueReachable 40 exQueue"
    unfolding exQueue_def
    by (intro qr_say [where t = 30 and now = 40] qr_say [where t = 20 and now = 30]
        qr_say [where t = 10 and now = 20] qr_say [where t = 0 and now = 10] qr_new) simp_all
  have ne: "exQueue \<noteq> []" by (simp add: exQueue_eq)
  have d: "map_option (Text \<circ> fst) (dequeue exQueue) = Some ''c''"
    unfolding exQueue_eq by (simp add: dequeue_def bestIndex_def upt_rec)
  from dequeue_highest_priority_fifo [OF r ne] r ne d drainOrder_exQueue
  show ?thesis by blast
qed

section \<open>Starting a session\<close>

text \<open>
  C8.  StartSession does not check that the recipe has a step.  On a recipe without steps
  it panics (the write through the nil entry StepStates[0]) instead of returning an error,
  and nothing is stored.  On every recipe with at least one step it returns a session
  stored under the new id, with current step 0, step 0 active and started at the time
  read, every other step pending, and the only timer the pending one of step 0 when that
  step has a timer configuration.
\<close>

theorem StartSession_needs_a_step:
  assumes "recipes e recipeID = Some recipe"
  shows "(r_Steps recipe = [] \<longrightarrow>
            StartSession e recipeID servings newID t1 t2 t3 = (Inl PanicNilDereference, e)
            \<and> is_panic PanicNilDereference)
       \<and> (r_Steps recipe \<noteq> [] \<longrightarrow>
            (\<exists>session. StartSession e recipeID servings newID t1 t2 t3
                          = (Inr session, Save e newID session)
               \<and> store (Save e newID session) newID = Some session
               \<and> s_ID session = newID
               \<and> s_Status session = SessionActive
               \<and> s_CurrentStepIndex session = 0
               \<and> s_StepStates session 0
                    = Some \<lparr>ss_Status = StepActive, ss_StartedAt = t3, ss_CompletedAt = 0\<rparr>
               \<and> (\<forall>i. 0 < i \<and> i < length (r_Steps recipe) \<longrightarrow> s_StepStates session i
                    = Some \<lparr>ss_Status = StepPending, ss_StartedAt = 0, ss_CompletedAt = 0\<rparr>)
               \<and> (\<forall>i. length (r_Steps recipe) \<le> i \<longrightarrow> s_StepStates session i = None)
               \<and> s_TimerStates session
                    = s_TimerStates (maybeStartTimer (session\<lparr>s_TimerStates := Map.empty\<rparr>)
                        (r_Steps recipe ! 0))))"
proof (cases "r_Steps recipe")
  case Nil
  with assms show ?thesis by (simp add: StartSession_def initStepStates_def)
next
  case (Cons step0 rest)
  with assms show ?thesis
    by (cases "st_TimerConfig step0")
      (simp_all add: StartSession_def initStepStates_def Let_def Save_def maybeStartTimer_def)
qed

theorem StartSession_needs_a_step_witness:
  "recipes exEngine ''empty'' = Some emptyRecipe \<and> r_Steps emptyRecipe = []
   \<and> StartSession exEngine ''empty'' 0 ''s0'' 100 100 100 = (Inl PanicNilDereference, exEngine)
   \<and> recipes exEngine ''demo'' = Some exRecipe \<and> r_Steps exRecipe \<noteq> []
   \<and> map_option ss_Status
        (case fst (StartSession exEngine ''demo'' 0 ''s1'' 100 100 100) of
           Inl err \<Rightarrow> None | Inr session \<Rightarrow> s_StepStates session 0) = Some StepActive"
proof -
  have a: "recipes exEngine ''empty'' = Some emptyRecipe" "r_Steps emptyRecipe = []"
    by (simp_all add: exEngine_def emptyRecipe_def)
  have b: "recipes exEngine ''demo'' = Some exRecipe" "r_Steps exRecipe \<noteq> []"
    by (simp_all add: exEngine_def exRecipe_def)
  from StartSession_needs_a_step [OF a(1), of 0 "''s0''" 100 100 100]
       StartSession_needs_a_step [OF b(1), of 0 "''s1''" 100 100 100] a b
  show ?thesis by auto
qed

section \<open>Resume on a session that is not paused\<close>

text \<open>
  C9.  For every stored session whose status is not paused, Resume fails with the sentinel
  ErrSessionPaused, whose message is "session is paused" (and which is not the
  session-not-active sentinel), and the store is left as it was: the session, its status
  and all its timers are unchanged.
\<close>

theorem Resume_not_paused:
  assumes "store e sessionID = Some session" and "s_Status session \<noteq> SessionPaused"
  shows "Resume e now sessionID = (Inl (Sentinel ErrSessionPaused), e)
       \<and> sentinel_message ErrSessionPaused = ''session is paused''
       \<and> ErrSessionPaused \<noteq> ErrSessionNotActive"
  using assms by (simp add: Resume_def)

theorem Resume_not_paused_witness:
  "store exStarted ''s1'' = Some exSession
   \<and> s_Status exSession \<noteq> SessionPaused
   \<and> Resume exStarted 300 ''s1'' = (Inl (Sentinel ErrSessionPaused), exStarted)"
proof -
  have s: "store exStarted ''s1'' = Some exSession" "s_Status exSession \<noteq> SessionPaused"
    by (simp_all add: exStarted_def exSession_def)
  from Resume_not_paused [OF s, of 300] s show ?thesis by simp
qed

section \<open>Adding a step at a non-positive index\<close>

lemma wrap64_underflow: "wrap64 (- (2 ^ 63) - 1) = 2 ^ 63 - 1"
  by (simp add: wrap64_def)

lemma length_renumber [simp]: "length (renumber steps) = length steps"
  by (simp add: renumber_def)

lemma nth_renumber [simp]:
  "i < length steps \<Longrightarrow> renumber steps ! i = (steps ! i)\<lparr>st_Order := int i + 1\<rparr>"
  by (simp add: renumber_def)

lemma nonpositive_index_cases:
  assumes "- (2 ^ 63) \<le> x" "x \<le> 0"
  shows "wrap64 (x - 1) < 0 \<or> wrap64 (x - 1) = 2 ^ 63 - 1"
proof (cases "x = - (2 ^ 63)")
  case True
  then show ?thesis using wrap64_underflow by simp
next
  case False
  with assms have "- (2 ^ 63) \<le> x - 1" "x - 1 < 2 ^ 63" by simp_all
  then have "wrap64 (x - 1) = x - 1" by (rule wrap64_id)
  with assms show ?thesis by simp
qed

text \<open>
  C10.  An add_step action whose 1-based step_index is zero or negative does not fail: the
  new step is appended at the end, exactly as for an index past the end, and afterwards the
  order field of every step is its position plus one.  update_step and remove_step fail
  with the out-of-range error on the same index.
\<close>

theorem addStep_nonpositive_index:
  assumes idx: "a_StepIndex act \<le> 0" and lo: "- (2 ^ 63) \<le> a_StepIndex act"
    and len: "int (length (r_Steps r)) < 2 ^ 63 - 1"
    and past: "int (length (r_Steps r)) < j" "j < 2 ^ 63"
  shows "\<exists>r'. addStep r act = Inr r'
      \<and> addStep r (act\<lparr>a_StepIndex := j\<rparr>) = Inr r'
      \<and> length (r_Steps r') = Suc (length (r_Steps r))
      \<and> (\<forall>i < length (r_Steps r). r_Steps r' ! i = (r_Steps r ! i)\<lparr>st_Order := int i + 1\<rparr>)
      \<and> st_Instruction (r_Steps r' ! length (r_Steps r)) = a_Instruction act
      \<and> st_ID (r_Steps r' ! length (r_Steps r)) = ''step-'' @ showInt (int (length (r_Steps r)) + 1)
      \<and> (\<forall>i < length (r_Steps r'). st_Order (r_Steps r' ! i) = int i + 1)
      \<and> updateStep r act = Inl (StepOutOfRange (a_StepIndex act) (length (r_Steps r)))
      \<and> removeStep r act = Inl (StepOutOfRange (a_StepIndex act) (length (r_Steps r)))"
proof -
  let ?n = "length (r_Steps r)"
  from nonpositive_index_cases [OF lo idx] len
  have c: "wrap64 (a_StepIndex act - 1) < 0 \<or> wrap64 (a_StepIndex act - 1) > int ?n"
    by auto
  have j: "wrap64 (j - 1) = j - 1" using past by (intro wrap64_id) auto
  have a1: "addStep r act = Inr (r\<lparr>r_Steps := renumber (r_Steps r @
       [\<lparr>st_ID = ''step-'' @ showInt (int ?n + 1), st_Order = int ?n + 1,
         st_Instruction = a_Instruction act, st_Duration = 0, st_Conditions = [],
         st_ParallelHints = [], st_TimerConfig = None\<rparr>])\<rparr>)"
    using c by (auto simp: addStep_def Let_def)
  have a2: "addStep r (act\<lparr>a_StepIndex := j\<rparr>) = addStep r act"
  proof (cases "int ?n < j - 1")
    case True
    then show ?thesis unfolding a1 using past j by (simp add: addStep_def Let_def)
  next
    case False
    with past have "j = int ?n + 1" by linarith
    then show ?thesis unfolding a1 using j by (simp add: addStep_def Let_def)
  qed
  have u: "updateStep r act = Inl (StepOutOfRange (a_StepIndex act) ?n)"
    using c by (auto simp: updateStep_def Let_def)
  have rm: "removeStep r act = Inl (StepOutOfRange (a_StepIndex act) ?n)"
    using c by (auto simp: removeStep_def Let_def)
  show ?thesis
    unfolding a2 u rm unfolding a1
    by (simp add: nth_append)
qed

theorem addStep_nonpositive_index_witness:
  "a_StepIndex exAction \<le> 0 \<and> - (2 ^ 63) \<le> a_StepIndex exAction
   \<and> int (length (r_Steps exRecipe)) < 2 ^ 63 - 1
   \<and> int (length (r_Steps exRecipe)) < 7 \<and> (7 :: int) < 2 ^ 63
   \<and> addStep exRecipe (exAction\<lparr>a_StepIndex := 7\<rparr>) = addStep exRecipe exAction
   \<and> updateStep exRecipe exAction = Inl (StepOutOfRange 0 2)
   \<and> removeStep exRecipe exAction = Inl (StepOutOfRange 0 2)"
proof -
  have h: "a_StepIndex exAction \<le> 0" "- (2 ^ 63) \<le> a_StepIndex exAction"
    "int (length (r_Steps exRecipe)) < 2 ^ 63 - 1"
    "int (length (r_Steps exRecipe)) < 7" "(7 :: int) < 2 ^ 63"
    by (simp_all add: exAction_def exRecipe_def)
  have v: "a_StepIndex exAction = 0" "length (r_Steps exRecipe) = 2"
    by (simp_all add: exAction_def exRecipe_def)
  from addStep_nonpositive_index [OF h] h show ?thesis
    unfolding v by auto
qed


end
